theory Spec2Isabelle
  imports Complex_Main
begin

section \<open>Values: JavaScript numbers and Redis strings\<close>

text \<open>
  The handlers of \<^verbatim>\<open>services/status.ts\<close> and \<^verbatim>\<open>services/purchase.ts\<close> read Redis
  strings and turn them into JavaScript numbers with \<^verbatim>\<open>Number(...)\<close>. A JavaScript number
  is a finite value, one of the two infinities, or NaN; every comparison with NaN is false.
  Finite values are kept as rationals (every finite double is one).
\<close>

datatype jsnum = NaN | NegInf | Fin rat | PosInf

fun js_lt :: "jsnum \<Rightarrow> jsnum \<Rightarrow> bool" where
  "js_lt (Fin a) (Fin b) = (a < b)"
| "js_lt NegInf (Fin b) = True"
| "js_lt NegInf PosInf = True"
| "js_lt (Fin a) PosInf = True"
| "js_lt a b = False"

definition js_gt :: "jsnum \<Rightarrow> jsnum \<Rightarrow> bool" where
  "js_gt a b = js_lt b a"

definition js_le :: "jsnum \<Rightarrow> jsnum \<Rightarrow> bool" where
  "js_le a b = (js_lt a b \<or> (a = b \<and> a \<noteq> NaN))"

fun js_finite :: "jsnum \<Rightarrow> bool" where
  "js_finite (Fin a) = True"
| "js_finite a = False"

fun js_sub :: "jsnum \<Rightarrow> jsnum \<Rightarrow> jsnum" where
  "js_sub (Fin a) (Fin b) = Fin (a - b)"
| "js_sub NaN b = NaN"
| "js_sub a NaN = NaN"
| "js_sub PosInf PosInf = NaN"
| "js_sub NegInf NegInf = NaN"
| "js_sub PosInf b = PosInf"
| "js_sub NegInf b = NegInf"
| "js_sub (Fin a) PosInf = NegInf"
| "js_sub (Fin a) NegInf = PosInf"

text \<open>\<^verbatim>\<open>x || 0\<close> on a number: NaN and 0 are the falsy numbers.\<close>

definition js_or0 :: "jsnum \<Rightarrow> jsnum" where
  "js_or0 x = (if x = NaN \<or> x = Fin 0 then Fin 0 else x)"

text \<open>
  A Redis string in a numeric slot. \<open>IntStr n\<close> is the canonical decimal text of the
  integer \<open>n\<close>: what \<^verbatim>\<open>SET key <integer>\<close>, INCR and DECR store, and the only text INCR and
  DECR accept. \<open>RawStr x\<close> is any other text, kept as the number \<^verbatim>\<open>Number(text)\<close> gives it
  (\<open>NaN\<close> for text that is no number at all; the empty text is \<open>RawStr (Fin 0)\<close>). The 64-bit
  range of Redis integers is not modelled.
\<close>

datatype redis_str = IntStr int | RawStr jsnum

fun Number_str :: "redis_str \<Rightarrow> jsnum" where
  "Number_str (IntStr n) = Fin (of_int n)"
| "Number_str (RawStr x) = x"

text \<open>\<^verbatim>\<open>Number(cfg.field)\<close> for a hash field: a missing field is \<^verbatim>\<open>undefined\<close>, whose number is NaN.\<close>

fun Number_field :: "redis_str option \<Rightarrow> jsnum" where
  "Number_field None = NaN"
| "Number_field (Some s) = Number_str s"

text \<open>\<^verbatim>\<open>Number(await redis.get(key))\<close>: a missing key is \<^verbatim>\<open>null\<close>, whose number is 0.\<close>

fun Number_get :: "redis_str option \<Rightarrow> jsnum" where
  "Number_get None = Fin 0"
| "Number_get (Some s) = Number_str s"

text \<open>
  \<^verbatim>\<open>Number(stockStr || "0")\<close>: a missing key and the empty text both become \<^verbatim>\<open>"0"\<close>; the
  empty text already has the number 0, so the result is that of \<open>Number_get\<close>.
\<close>

definition Number_or_zero :: "redis_str option \<Rightarrow> jsnum" where
  "Number_or_zero s = Number_get s"

subsection \<open>Text of an integer, trimming\<close>

definition digit_char :: "nat \<Rightarrow> char" where
  "digit_char d = ''0123456789'' ! d"

fun show_nat :: "nat \<Rightarrow> string" where
  "show_nat n = (if n < 10 then [digit_char n] else show_nat (n div 10) @ [digit_char (n mod 10)])"

declare show_nat.simps [simp del]

text \<open>The text a template literal gives an integer timestamp.\<close>

definition show_int :: "int \<Rightarrow> string" where
  "show_int i = (if i < 0 then CHR ''-'' # show_nat (nat (- i)) else show_nat (nat i))"

text \<open>
  \<^verbatim>\<open>String.prototype.trim\<close> strips white space and line terminators from both ends. A text is a
  list of code units below 256 here (a \<open>char\<close> is one), and of those \<^verbatim>\<open>trim\<close> strips seven: TAB,
  LF, VT, FF, CR, the space and the no-break space U+00A0. The other characters it strips
  (U+1680, U+2000 to U+200A, U+2028, U+2029, U+202F, U+205F, U+3000, U+FEFF) lie above 255
  and are in no text of the model; U+0085 is below and not stripped.
\<close>

definition is_space :: "char \<Rightarrow> bool" where
  "is_space c = (c \<in> {CHR 0x09, CHR 0x0A, CHR 0x0B, CHR 0x0C, CHR 0x0D, CHR 0x20, CHR 0xA0})"

definition trim :: "string \<Rightarrow> string" where
  "trim s = rev (dropWhile is_space (rev (dropWhile is_space s)))"

section \<open>The Redis store\<close>

text \<open>
  The keys the engine uses: the hash \<^verbatim>\<open>sale:config\<close>, the string \<^verbatim>\<open>sale:stock\<close>, one string
  \<^verbatim>\<open>user:<userId>\<close> per buyer (the receipt, holding the order identifier), and the list
  \<^verbatim>\<open>sale:orders\<close>, whose head is the entry pushed last (LPUSH).
\<close>

record config_hash =
  cfg_productId :: "string option"
  cfg_productDescription :: "string option"
  cfg_startsAt :: "redis_str option"
  cfg_endsAt :: "redis_str option"
  cfg_initialStock :: "redis_str option"

record order_entry =
  o_userId :: string
  o_ts :: int
  o_orderId :: string

record store =
  config :: config_hash
  stock :: "redis_str option"
  receipts :: "string \<rightharpoonup> string"
  orders :: "order_entry list"

text \<open>
  WATCH state is kept per connection: the keys it watches, and whether one of them was
  written since (Redis's dirty flag). EXEC and UNWATCH both forget all of it.
\<close>

datatype key = StockKey | UserKey string

record session =
  watched :: "key set"
  dirty :: bool

definition fresh_session :: session where
  "fresh_session = \<lparr>watched = {}, dirty = False\<rparr>"

text \<open>
  The world a request handler runs against: the clock behind \<^verbatim>\<open>Date.now()\<close>, the store,
  and the transaction pool of \<^verbatim>\<open>services/redis.ts\<close>: \<open>sessions\<close> holds the WATCH state of
  each connection of \<^verbatim>\<open>txPool\<close> (the empty list until \<^verbatim>\<open>initTxPool\<close> has run), and \<open>rr\<close> is the
  round-robin counter.
\<close>

record world =
  clock :: int
  store :: store
  sessions :: "session list"
  rr :: nat

definition touch :: "key \<Rightarrow> world \<Rightarrow> world" where
  "touch k w =
     w\<lparr>sessions := map (\<lambda>s. if k \<in> watched s then s\<lparr>dirty := True\<rparr> else s) (sessions w)\<rparr>"

definition WATCH :: "nat \<Rightarrow> key set \<Rightarrow> world \<Rightarrow> world" where
  "WATCH c ks w =
     w\<lparr>sessions := (sessions w)[c := (sessions w ! c)\<lparr>watched := watched (sessions w ! c) \<union> ks\<rparr>]\<rparr>"

definition UNWATCH :: "nat \<Rightarrow> world \<Rightarrow> world" where
  "UNWATCH c w = w\<lparr>sessions := (sessions w)[c := fresh_session]\<rparr>"

text \<open>
  DECR and INCR: a missing key counts as 0; on text that is not an integer the command
  fails (\<open>None\<close>) and writes nothing. A write marks every connection watching the key.
\<close>

definition DECR_stock :: "world \<Rightarrow> int option \<times> world" where
  "DECR_stock w =
     (case stock (store w) of
        None \<Rightarrow> (Some (- 1), touch StockKey (w\<lparr>store := (store w)\<lparr>stock := Some (IntStr (- 1))\<rparr>\<rparr>))
      | Some (IntStr n) \<Rightarrow> (Some (n - 1), touch StockKey (w\<lparr>store := (store w)\<lparr>stock := Some (IntStr (n - 1))\<rparr>\<rparr>))
      | Some (RawStr x) \<Rightarrow> (None, w))"

definition INCR_stock :: "world \<Rightarrow> int option \<times> world" where
  "INCR_stock w =
     (case stock (store w) of
        None \<Rightarrow> (Some 1, touch StockKey (w\<lparr>store := (store w)\<lparr>stock := Some (IntStr 1)\<rparr>\<rparr>))
      | Some (IntStr n) \<Rightarrow> (Some (n + 1), touch StockKey (w\<lparr>store := (store w)\<lparr>stock := Some (IntStr (n + 1))\<rparr>\<rparr>))
      | Some (RawStr x) \<Rightarrow> (None, w))"

definition SET_user :: "string \<Rightarrow> string \<Rightarrow> world \<Rightarrow> world" where
  "SET_user u v w = touch (UserKey u) (w\<lparr>store := (store w)\<lparr>receipts := (receipts (store w))(u \<mapsto> v)\<rparr>\<rparr>)"

definition DEL_user :: "string \<Rightarrow> world \<Rightarrow> world" where
  "DEL_user u w =
     (case receipts (store w) u of
        None \<Rightarrow> w
      | Some v \<Rightarrow> touch (UserKey u) (w\<lparr>store := (store w)\<lparr>receipts := (receipts (store w))(u := None)\<rparr>\<rparr>))"

definition LPUSH_orders :: "order_entry \<Rightarrow> world \<Rightarrow> world" where
  "LPUSH_orders e w = w\<lparr>store := (store w)\<lparr>orders := e # orders (store w)\<rparr>\<rparr>"

text \<open>
  \<^verbatim>\<open>conn.multi()...exec()\<close>: MULTI, the queued commands and EXEC reach Redis as one block.
  EXEC forgets the connection's watches; when the connection was dirty it runs nothing and
  answers \<^verbatim>\<open>null\<close> (\<open>None\<close>), otherwise it runs the block.
\<close>

definition multi_exec :: "nat \<Rightarrow> (world \<Rightarrow> 'a \<times> world) \<Rightarrow> world \<Rightarrow> 'a option \<times> world" where
  "multi_exec c block w =
     (if dirty (sessions w ! c) then (None, UNWATCH c w)
      else (case block (UNWATCH c w) of (r, w') \<Rightarrow> (Some r, w')))"

section \<open>Read paths\<close>

subsection \<open>\<^verbatim>\<open>getStatus\<close> (GET /api/status)\<close>

datatype phase = upcoming | active | ended | sold_out

record status_view =
  status :: phase
  sv_startsAt :: jsnum
  sv_endsAt :: jsnum
  sv_stock :: jsnum
  sold :: jsnum
  productId :: "string option"
  productDescription :: "string option"

text \<open>
  The handler only reads; it is given the world and hands the same world back, so that
  its lack of effects is a statement about the model.
\<close>

definition getStatus :: "world \<Rightarrow> status_view \<times> world" where
  "getStatus w =
     (let cfg = config (store w);
          stock = js_or0 (Number_get (stock (store w)));
          startsAt = Number_field (cfg_startsAt cfg);
          endsAt = Number_field (cfg_endsAt cfg);
          now = Fin (of_int (clock w));
          sold = js_sub (js_or0 (Number_field (cfg_initialStock cfg))) stock;
          status = (if js_lt now startsAt then upcoming
                    else if js_gt now endsAt then ended
                    else if js_le stock (Fin 0) then sold_out
                    else active)
      in (\<lparr>status = status, sv_startsAt = startsAt, sv_endsAt = endsAt, sv_stock = stock,
           sold = sold, productId = cfg_productId cfg,
           productDescription = cfg_productDescription cfg\<rparr>, w))"

subsection \<open>\<^verbatim>\<open>getPurchase\<close> (GET /api/purchase/:userId)\<close>

text \<open>A string is truthy when it is there and not empty.\<close>

fun truthy :: "string option \<Rightarrow> bool" where
  "truthy None = False"
| "truthy (Some s) = (s \<noteq> [])"

record purchase_view =
  purchased :: bool
  pv_orderId :: "string option"

datatype lookup_reply = LookupInvalidUser | Lookup purchase_view

definition getPurchase :: "string \<Rightarrow> world \<Rightarrow> lookup_reply \<times> world" where
  "getPurchase userId w =
     (if length (trim userId) < 3 then (LookupInvalidUser, w)
      else (let orderId = receipts (store w) (trim userId)
            in (Lookup \<lparr>purchased = truthy orderId, pv_orderId = orderId\<rparr>, w)))"

section \<open>The purchase call: \<^verbatim>\<open>doPurchase\<close> and \<^verbatim>\<open>attemptPurchase\<close>\<close>

definition MAX_RETRIES :: nat where
  \<comment> \<open>\<^verbatim>\<open>Number(process.env.PURCHASE_MAX_RETRIES || 5)\<close>, the variable unset\<close>
  "MAX_RETRIES = 5"

record result =
  code :: nat
  orderId :: "string option"
  reason :: "string option"

text \<open>
  A call is suspended at every \<^verbatim>\<open>await\<close>; other calls and the clock move in between.
  The label of a call says which awaited command it issues next:
  \<^item> \<open>Start\<close>: entry of \<^verbatim>\<open>doPurchase\<close> (validation, then HGETALL of the configuration);
  \<^item> \<open>Enter\<close>: HGETALL has answered: \<^verbatim>\<open>Date.now()\<close>, then the call of \<^verbatim>\<open>attemptPurchase\<close>, which
    takes a connection with \<^verbatim>\<open>getTxConn()\<close> and awaits \<^verbatim>\<open>ensureConnected\<close>;
  \<^item> \<open>Loop\<close>: the \<^verbatim>\<open>for\<close> test and WATCH, then the window check;
  \<^item> \<open>Mget\<close>: MGET, then the duplicate check and the stock check;
  \<^item> \<open>Exec\<close>: the MULTI/DECR/SET/LPUSH/EXEC block, then the check of DECR's reply;
  \<^item> \<open>UnwatchRetry\<close>, \<open>Sleep\<close>: UNWATCH and the back-off after a rejected commit;
  \<^item> \<open>Rollback\<close>: the MULTI/INCR/DEL/EXEC block of the guard;
  \<^item> \<open>Unwatch r\<close>: UNWATCH before \<^verbatim>\<open>return r\<close>;
  \<^item> \<open>Done r\<close>: \<^verbatim>\<open>attemptPurchase\<close> has returned \<open>r\<close>;
  \<^item> \<open>Invalid\<close>: \<^verbatim>\<open>doPurchase\<close> answered 422 before calling the engine;
  \<^item> \<open>Thrown\<close>: \<^verbatim>\<open>getTxConn()\<close> threw on an empty pool.
\<close>

datatype label =
  Start | Enter | Loop | Mget | Exec | UnwatchRetry | Sleep | Rollback
| Unwatch result | Done result | Invalid | Thrown

record proc =
  userId :: string
  now :: int
  startsAt :: jsnum
  endsAt :: jsnum
  conn :: nat
  tries :: nat
  pc :: label

text \<open>A request as it arrives: \<open>u\<close> is \<^verbatim>\<open>body.userId\<close> (the empty text when missing).\<close>

definition new_call :: "string \<Rightarrow> proc" where
  "new_call u = \<lparr>userId = u, now = 0, startsAt = NaN, endsAt = NaN, conn = 0, tries = 0, pc = Start\<rparr>"

definition order_id :: "int \<Rightarrow> string \<Rightarrow> string" where
  \<comment> \<open>the template literal \<^verbatim>\<open>${now}:${userId}\<close>\<close>
  "order_id n u = show_int n @ '':'' @ u"

definition window_closed :: "int \<Rightarrow> jsnum \<Rightarrow> jsnum \<Rightarrow> bool" where
  \<comment> \<open>\<^verbatim>\<open>now < startsAt || now > endsAt\<close>\<close>
  "window_closed n sa ea = (js_lt (Fin (of_int n)) sa \<or> js_gt (Fin (of_int n)) ea)"

text \<open>Lines 175-183 of \<^verbatim>\<open>doPurchase\<close>: validation and the read of the configuration.\<close>

definition doPurchase_entry :: "proc \<Rightarrow> world \<Rightarrow> proc \<times> world" where
  "doPurchase_entry p w =
     (let u = trim (userId p) in
      if length u < 3 then (p\<lparr>pc := Invalid\<rparr>, w)
      else (let cfg = config (store w)
            in (p\<lparr>userId := u, startsAt := Number_field (cfg_startsAt cfg),
                  endsAt := Number_field (cfg_endsAt cfg), pc := Enter\<rparr>, w)))"

text \<open>
  Lines 210-214 of \<^verbatim>\<open>attemptPurchase\<close>: \<^verbatim>\<open>getTxConn()\<close> throws on an empty pool, else hands out
  \<^verbatim>\<open>txPool[rr++ % txPool.length]\<close>; the loop starts with \<open>tries = 0\<close>.
\<close>

definition attemptPurchase_entry :: "proc \<Rightarrow> world \<Rightarrow> proc \<times> world" where
  "attemptPurchase_entry p w =
     (if sessions w = [] then (p\<lparr>pc := Thrown\<rparr>, w)
      else (p\<lparr>conn := rr w mod length (sessions w), tries := 0, pc := Loop\<rparr>, w\<lparr>rr := rr w + 1\<rparr>))"

text \<open>Lines 184-186 of \<^verbatim>\<open>doPurchase\<close>: the clock is read once, then the engine is called.\<close>

definition doPurchase_call :: "proc \<Rightarrow> world \<Rightarrow> proc \<times> world" where
  "doPurchase_call p w = attemptPurchase_entry (p\<lparr>now := clock w\<rparr>) w"

text \<open>Lines 216-223 and 262-263.\<close>

definition loop_head :: "proc \<Rightarrow> world \<Rightarrow> proc \<times> world" where
  "loop_head p w =
     (if tries p < MAX_RETRIES then
        (let w' = WATCH (conn p) {StockKey, UserKey (userId p)} w in
         if window_closed (now p) (startsAt p) (endsAt p)
         then (p\<lparr>pc := Unwatch \<lparr>code = 3, orderId = None, reason = None\<rparr>\<rparr>, w')
         else (p\<lparr>pc := Mget\<rparr>, w'))
      else (p\<lparr>pc := Unwatch \<lparr>code = 4, orderId = None, reason = Some ''contention''\<rparr>\<rparr>, w))"

text \<open>Lines 225-237.\<close>

definition mget_checks :: "proc \<Rightarrow> world \<Rightarrow> proc \<times> world" where
  "mget_checks p w =
     (let stockStr = stock (store w); existing = receipts (store w) (userId p) in
      if truthy existing
      then (p\<lparr>pc := Unwatch \<lparr>code = 1, orderId = existing, reason = None\<rparr>\<rparr>, w)
      else (let stock = Number_or_zero stockStr in
            if \<not> js_finite stock \<or> js_le stock (Fin 0)
            then (p\<lparr>pc := Unwatch \<lparr>code = 2, orderId = None, reason = None\<rparr>\<rparr>, w)
            else (p\<lparr>pc := Exec\<rparr>, w)))"

text \<open>Lines 239-244: the block of the purchase; the reply kept is DECR's.\<close>

definition purchase_block :: "string \<Rightarrow> int \<Rightarrow> world \<Rightarrow> int option \<times> world" where
  "purchase_block u n w =
     (case DECR_stock w of
        (reply, w1) \<Rightarrow>
          (reply, LPUSH_orders \<lparr>o_userId = u, o_ts = n, o_orderId = order_id n u\<rparr>
                    (SET_user u (order_id n u) w1)))"

text \<open>\<^verbatim>\<open>Number(res[0]?.[1])\<close>: the reply of a failed command is \<^verbatim>\<open>undefined\<close>, whose number is NaN.\<close>

fun Number_reply :: "int option \<Rightarrow> jsnum" where
  "Number_reply None = NaN"
| "Number_reply (Some n) = Fin (of_int n)"

text \<open>Lines 239-259.\<close>

definition exec_purchase :: "proc \<Rightarrow> world \<Rightarrow> proc \<times> world" where
  "exec_purchase p w =
     (case multi_exec (conn p) (purchase_block (userId p) (now p)) w of
        (None, w') \<Rightarrow> (p\<lparr>pc := UnwatchRetry\<rparr>, w')
      | (Some reply, w') \<Rightarrow>
          (let newStock = Number_reply reply in
           if js_finite newStock \<and> js_lt newStock (Fin 0)
           then (p\<lparr>pc := Rollback\<rparr>, w')
           else (p\<lparr>pc := Done \<lparr>code = 0, orderId = Some (order_id (now p) (userId p)), reason = None\<rparr>\<rparr>, w')))"

text \<open>Line 255: the guard's block; its outcome is not looked at.\<close>

definition rollback_block :: "string \<Rightarrow> world \<Rightarrow> unit \<times> world" where
  "rollback_block u w = ((), DEL_user u (snd (INCR_stock w)))"

definition exec_rollback :: "proc \<Rightarrow> world \<Rightarrow> proc \<times> world" where
  "exec_rollback p w =
     (p\<lparr>pc := Done \<lparr>code = 2, orderId = None, reason = None\<rparr>\<rparr>,
      snd (multi_exec (conn p) (rollback_block (userId p)) w))"

text \<open>One step of a call: from its label to the next \<^verbatim>\<open>await\<close>.\<close>

definition call_step :: "proc \<times> world \<Rightarrow> proc \<times> world" where
  "call_step x =
     (case x of (p, w) \<Rightarrow>
        (case pc p of
           Start \<Rightarrow> doPurchase_entry p w
         | Enter \<Rightarrow> doPurchase_call p w
         | Loop \<Rightarrow> loop_head p w
         | Mget \<Rightarrow> mget_checks p w
         | Exec \<Rightarrow> exec_purchase p w
         | UnwatchRetry \<Rightarrow> (p\<lparr>pc := Sleep\<rparr>, UNWATCH (conn p) w)
         | Sleep \<Rightarrow> (p\<lparr>tries := tries p + 1, pc := Loop\<rparr>, w)
         | Rollback \<Rightarrow> exec_rollback p w
         | Unwatch r \<Rightarrow> (p\<lparr>pc := Done r\<rparr>, UNWATCH (conn p) w)
         | Done r \<Rightarrow> (p, w)
         | Invalid \<Rightarrow> (p, w)
         | Thrown \<Rightarrow> (p, w)))"

fun final :: "label \<Rightarrow> bool" where
  "final (Done r) = True"
| "final Invalid = True"
| "final Thrown = True"
| "final l = False"

text \<open>
  A call on its own, to its end. No call takes more than \<open>6 * MAX_RETRIES + 4\<close> steps
  (\<open>run_call_final\<close> below), and a finished call does not move.
\<close>

definition run_call :: "proc \<times> world \<Rightarrow> proc \<times> world" where
  "run_call x = (call_step ^^ (6 * MAX_RETRIES + 4)) x"

text \<open>
  \<^verbatim>\<open>attemptPurchase({userId, now, startsAt, endsAt})\<close> run on its own: the label it ends at
  (\<open>Done r\<close> when it returns \<open>r\<close>, \<open>Thrown\<close> when it throws) and the world it leaves.
  \<open>attempt u n sa ea\<close> is the call as \<^verbatim>\<open>doPurchase\<close> hands it over, and
  \<open>attemptPurchase_upto i\<close> is where the call stands \<open>i\<close> steps after its entry.
\<close>

definition attempt :: "string \<Rightarrow> int \<Rightarrow> jsnum \<Rightarrow> jsnum \<Rightarrow> proc" where
  "attempt u n sa ea =
     \<lparr>userId = u, now = n, startsAt = sa, endsAt = ea, conn = 0, tries = 0, pc = Enter\<rparr>"

definition attemptPurchase_upto ::
    "nat \<Rightarrow> string \<Rightarrow> int \<Rightarrow> jsnum \<Rightarrow> jsnum \<Rightarrow> world \<Rightarrow> label \<times> world" where
  "attemptPurchase_upto i u n sa ea w =
     (case (call_step ^^ i) (attemptPurchase_entry (attempt u n sa ea) w) of
        (p, w') \<Rightarrow> (pc p, w'))"

definition attemptPurchase :: "string \<Rightarrow> int \<Rightarrow> jsnum \<Rightarrow> jsnum \<Rightarrow> world \<Rightarrow> label \<times> world" where
  "attemptPurchase u n sa ea w =
     (case run_call (attemptPurchase_entry (attempt u n sa ea) w) of
        (p, w') \<Rightarrow> (pc p, w'))"

subsection \<open>What \<^verbatim>\<open>doPurchase\<close> answers\<close>

datatype reply =
  Purchased "string option" | AlreadyPurchased "string option" | SoldOut | NotActive | Busy
| InvalidUser | UnknownError

text \<open>Lines 187-196.\<close>

definition respond :: "result \<Rightarrow> reply" where
  "respond r =
     (if code r = 0 then Purchased (orderId r)
      else if code r = 1 then AlreadyPurchased (orderId r)
      else if code r = 2 then SoldOut
      else if code r = 3 then NotActive
      else if code r = 4 then Busy
      else UnknownError)"

fun http_status :: "reply \<Rightarrow> nat" where
  "http_status (Purchased i) = 200"
| "http_status (AlreadyPurchased i) = 409"
| "http_status SoldOut = 410"
| "http_status NotActive = 403"
| "http_status Busy = 503"
| "http_status InvalidUser = 422"
| "http_status UnknownError = 500"

fun answer :: "label \<Rightarrow> reply option" where
  "answer (Done r) = Some (respond r)"
| "answer Invalid = Some InvalidUser"
| "answer l = None"

text \<open>
  \<^verbatim>\<open>doPurchase\<close> run on its own for the request body \<open>u\<close>: what it answers, and the world it
  leaves. A throw of \<^verbatim>\<open>getTxConn()\<close> leaves the handler without an answer of its own.
\<close>

definition doPurchase :: "string \<Rightarrow> world \<Rightarrow> reply option \<times> world" where
  "doPurchase u w = (case run_call (new_call u, w) of (p, w') \<Rightarrow> (answer (pc p), w'))"

section \<open>Many calls at once\<close>

text \<open>
  A system is the world and the calls in flight. The scheduler picks which call takes its
  next step, or lets the clock advance; every interleaving of the calls' commands is a
  schedule.
\<close>

record system =
  env :: world
  calls :: "proc list"

datatype event = Run nat | Tick nat

fun fire :: "event \<Rightarrow> system \<Rightarrow> system" where
  "fire (Run i) s =
     (if i < length (calls s)
      then (case call_step (calls s ! i, env s) of
              (p, w) \<Rightarrow> \<lparr>env = w, calls = (calls s)[i := p]\<rparr>)
      else s)"
| "fire (Tick d) s = s\<lparr>env := (env s)\<lparr>clock := clock (env s) + int d\<rparr>\<rparr>"

definition exec_sched :: "event list \<Rightarrow> system \<Rightarrow> system" where
  "exec_sched es s = fold fire es s"

section \<open>Definitions used by the statements and proofs below\<close>

text \<open>
  An upper bound on the steps a call still takes: every step of an unfinished call lowers
  it, so every call ends.
\<close>

definition fuel_left :: "proc \<Rightarrow> nat" where
  "fuel_left p =
     (case pc p of
        Start \<Rightarrow> 6 * MAX_RETRIES + 4
      | Enter \<Rightarrow> 6 * MAX_RETRIES + 3
      | Loop \<Rightarrow> 6 * (MAX_RETRIES - tries p) + 2
      | Mget \<Rightarrow> 6 * (MAX_RETRIES - Suc (tries p)) + 6
      | Exec \<Rightarrow> 6 * (MAX_RETRIES - Suc (tries p)) + 5
      | UnwatchRetry \<Rightarrow> 6 * (MAX_RETRIES - Suc (tries p)) + 4
      | Sleep \<Rightarrow> 6 * (MAX_RETRIES - Suc (tries p)) + 3
      | Rollback \<Rightarrow> 1
      | Unwatch r \<Rightarrow> 1
      | Done r \<Rightarrow> 0
      | Invalid \<Rightarrow> 0
      | Thrown \<Rightarrow> 0)"

subsection \<open>A sale to try the statements on\<close>

text \<open>
  The sale of the repository's test helper \<^verbatim>\<open>resetSale\<close>: product LE-001, window
  \<open>[1000, 2000]\<close>, stock 10, no receipt and no order yet; the pool holds its 8
  connections and the clock stands at 1500.
\<close>

definition cfg0 :: config_hash where
  "cfg0 = \<lparr>cfg_productId = Some ''LE-001'', cfg_productDescription = None,
           cfg_startsAt = Some (IntStr 1000), cfg_endsAt = Some (IntStr 2000),
           cfg_initialStock = Some (IntStr 10)\<rparr>"

definition store0 :: store where
  "store0 = \<lparr>config = cfg0, stock = Some (IntStr 10), receipts = Map.empty, orders = []\<rparr>"

definition w0 :: world where
  "w0 = \<lparr>clock = 1500, store = store0, sessions = replicate 8 fresh_session, rr = 0\<rparr>"

text \<open>
  For the atomicity of the commit: along a call for buyer \<open>u\<close> at time \<open>n\<close>, the store is
  \<open>s\<close> as long as the call has not committed, and \<open>s'\<close> once it has, and then the call is over.
\<close>

definition one_commit :: "store \<Rightarrow> store \<Rightarrow> string \<Rightarrow> int \<Rightarrow> proc \<times> world \<Rightarrow> bool" where
  "one_commit s s' u n x =
     (userId (fst x) = u \<and> now (fst x) = n \<and>
      ((store (snd x) = s \<and> pc (fst x) \<notin> {Rollback, Start, Enter})
       \<or> (store (snd x) = s' \<and> final (pc (fst x)))))"

text \<open>The sale at another time \<open>t\<close> and with another stock \<open>k\<close>.\<close>

definition at_clock :: "int \<Rightarrow> int \<Rightarrow> world" where
  "at_clock t k = w0\<lparr>clock := t, store := store0\<lparr>stock := Some (IntStr k)\<rparr>\<rparr>"

text \<open>Two requests against the sale, not yet started.\<close>

definition sys0 :: system where
  "sys0 = \<lparr>env = w0, calls = [new_call ''alice'', new_call ''bob'']\<rparr>"

text \<open>A label that carries a result carries one whose code \<^verbatim>\<open>doPurchase\<close> knows.\<close>

definition label_ok :: "label \<Rightarrow> bool" where
  "label_ok l = (case l of Done r \<Rightarrow> code r \<le> 4 | Unwatch r \<Rightarrow> code r \<le> 4 | _ \<Rightarrow> True)"

subsection \<open>Operations one after another\<close>

text \<open>
  The three operations of the engine, each run to its end before the next one starts, and
  the passing of time between them.
\<close>

datatype op = Reserve string | LookupOp string | StatusOp | Wait nat

fun exec_op :: "op \<Rightarrow> world \<Rightarrow> world" where
  "exec_op (Reserve u) w = snd (doPurchase u w)"
| "exec_op (LookupOp u) w = snd (getPurchase u w)"
| "exec_op StatusOp w = snd (getStatus w)"
| "exec_op (Wait d) w = w\<lparr>clock := clock w + int d\<rparr>"

definition exec_ops :: "op list \<Rightarrow> world \<Rightarrow> world" where
  "exec_ops xs w = fold exec_op xs w"

text \<open>\<open>no_purchase_by b xs w\<close>: run from \<open>w\<close>, no operation of \<open>xs\<close> is a purchase answered 200 for buyer \<open>b\<close>.\<close>

fun succeeds_for :: "string \<Rightarrow> op \<Rightarrow> world \<Rightarrow> bool" where
  "succeeds_for b (Reserve u) w =
     (trim u = b \<and> (case fst (doPurchase u w) of Some (Purchased i) \<Rightarrow> True | _ \<Rightarrow> False))"
| "succeeds_for b x w = False"

fun no_purchase_by :: "string \<Rightarrow> op list \<Rightarrow> world \<Rightarrow> bool" where
  "no_purchase_by b [] w = True"
| "no_purchase_by b (x # xs) w = (\<not> succeeds_for b x w \<and> no_purchase_by b xs (exec_op x w))"

text \<open>Invariants of a call that runs on its own.\<close>

definition buyer_is :: "string \<Rightarrow> proc \<Rightarrow> bool" where
  "buyer_is b p = (if pc p = Start then trim (userId p) = b else userId p = b)"

definition keeps :: "string \<Rightarrow> string \<Rightarrow> proc \<times> world \<Rightarrow> bool" where
  "keeps b oid x =
     (receipts (store (snd x)) b = Some oid
      \<and> (buyer_is b (fst x) \<longrightarrow> pc (fst x) \<noteq> Exec \<and> pc (fst x) \<noteq> Rollback))"

definition decr_safe :: "redis_str option \<Rightarrow> bool" where
  "decr_safe st = (case st of Some (IntStr k) \<Rightarrow> 1 \<le> k | Some (RawStr x) \<Rightarrow> True | None \<Rightarrow> False)"

definition solo :: "string \<Rightarrow> proc \<times> world \<Rightarrow> bool" where
  "solo u x =
     (pc (fst x) \<noteq> Rollback
      \<and> (pc (fst x) = Exec \<longrightarrow> decr_safe (stock (store (snd x))))
      \<and> (pc (fst x) = Start \<longrightarrow> userId (fst x) = u)
      \<and> (pc (fst x) \<noteq> Start \<and> pc (fst x) \<noteq> Invalid \<longrightarrow> userId (fst x) = trim u)
      \<and> (\<forall>r. pc (fst x) = Unwatch r \<longrightarrow> code r \<noteq> 0)
      \<and> (\<forall>r. pc (fst x) = Done r \<and> code r = 0 \<longrightarrow>
            orderId r = Some (order_id (now (fst x)) (trim u))
            \<and> receipts (store (snd x)) (trim u) = Some (order_id (now (fst x)) (trim u))))"

definition absent :: "string \<Rightarrow> string \<Rightarrow> proc \<times> world \<Rightarrow> bool" where
  "absent b u x =
     (solo u x \<and>
      (receipts (store (snd x)) b = None
       \<or> (trim u = b \<and> (\<exists>r. pc (fst x) = Done r \<and> code r = 0))))"

subsection \<open>Counting outcomes, and the invariants of concurrent calls\<close>

text \<open>
  \<open>returned c p\<close>: call \<open>p\<close> has returned a result with code \<open>c\<close>; \<open>count_code c s\<close> counts such
  calls in a system. \<open>rsv\<close>, \<open>pend\<close> and \<open>is_sold_out\<close> mark a call that has reserved a unit, one whose
  guard rollback is still to run, and one that is about to return or has returned sold out.
\<close>

definition rsv :: "proc \<Rightarrow> int" where
  "rsv p = (case pc p of Done r \<Rightarrow> (if code r = 0 then 1 else 0) | _ \<Rightarrow> 0)"

definition pend :: "proc \<Rightarrow> int" where
  "pend p = (if pc p = Rollback then 1 else 0)"

definition is_sold_out :: "proc \<Rightarrow> bool" where
  "is_sold_out p = (case pc p of Done r \<Rightarrow> code r = 2 | Unwatch r \<Rightarrow> code r = 2 | _ \<Rightarrow> False)"

definition returned :: "nat \<Rightarrow> proc \<Rightarrow> bool" where
  "returned c p = (case pc p of Done r \<Rightarrow> code r = c | _ \<Rightarrow> False)"

definition count_code :: "nat \<Rightarrow> system \<Rightarrow> nat" where
  "count_code c s = length (filter (returned c) (calls s))"

text \<open>
  \<open>entered_ok\<close>: what holds of every call that has entered the retry loop inside the window,
  when the buyers are distinct and had no receipt. \<open>gen_inv S\<close>: with it, the stock counter
  plus the units reserved plus the rollbacks to come never exceed the configured stock \<open>S\<close>.
\<close>

definition entered_ok :: "world \<Rightarrow> proc \<Rightarrow> bool" where
  "entered_ok w p =
     (\<not> window_closed (now p) (startsAt p) (endsAt p)
      \<and> (case pc p of
            Start \<Rightarrow> False | Enter \<Rightarrow> False | Invalid \<Rightarrow> False | Thrown \<Rightarrow> False
          | Unwatch r \<Rightarrow> (code r = 2 \<or> code r = 4) \<and> receipts (store w) (userId p) = None
          | Done r \<Rightarrow> code r = 0 \<or> code r = 2 \<or> code r = 4
          | Rollback \<Rightarrow> True
          | _ \<Rightarrow> receipts (store w) (userId p) = None))"

definition gen_inv :: "int \<Rightarrow> system \<Rightarrow> bool" where
  "gen_inv S s =
     ((\<exists>k. stock (store (env s)) = Some (IntStr k)
           \<and> k + sum_list (map rsv (calls s)) + sum_list (map pend (calls s)) \<le> S)
      \<and> sum_list (map rsv (calls s)) \<le> S
      \<and> (\<forall>p\<in>set (calls s). entered_ok (env s) p)
      \<and> distinct (map userId (calls s)))"

text \<open>
  \<open>iso_ok\<close>: what the WATCH gives a call that has its connection to itself: between MGET and
  EXEC the connection watches the stock key, and a commit that is not rejected still finds
  a stock DECR can lower without going negative. \<open>iso_inv S\<close>: then the stock counter is
  exactly \<open>S\<close> minus the units reserved, and once a call is sold out all \<open>S\<close> units are gone.
\<close>

definition iso_ok :: "world \<Rightarrow> proc \<Rightarrow> bool" where
  "iso_ok w p =
     (conn p < length (sessions w)
      \<and> (pc p = Mget \<longrightarrow> StockKey \<in> watched (sessions w ! conn p))
      \<and> (pc p = Exec \<longrightarrow> StockKey \<in> watched (sessions w ! conn p)
            \<and> (dirty (sessions w ! conn p) \<or> decr_safe (stock (store w))))
      \<and> pc p \<noteq> Rollback)"

definition iso_inv :: "int \<Rightarrow> system \<Rightarrow> bool" where
  "iso_inv S s =
     (gen_inv S s
      \<and> (\<forall>p\<in>set (calls s). iso_ok (env s) p)
      \<and> distinct (map conn (calls s))
      \<and> (\<exists>k. stock (store (env s)) = Some (IntStr k) \<and> k + sum_list (map rsv (calls s)) = S)
      \<and> ((\<exists>p\<in>set (calls s). is_sold_out p) \<longrightarrow> sum_list (map rsv (calls s)) = S))"

subsection \<open>Schedules to try the concurrent statements on\<close>

text \<open>
  Six requests of distinct buyers against the sale with stock \<open>S\<close>. In the schedule
  \<open>starved\<close> the sixth call reaches its commit five times, and each time another buyer's
  whole call runs between its MGET and its EXEC.
\<close>

definition six_buyers :: "int \<Rightarrow> system" where
  "six_buyers S =
     \<lparr>env = w0\<lparr>store := store0\<lparr>stock := Some (IntStr S)\<rparr>\<rparr>,
      calls = map new_call [''buyer0'', ''buyer1'', ''buyer2'', ''buyer3'', ''buyer4'', ''buyer5'']\<rparr>"

definition lose_to :: "nat \<Rightarrow> event list" where
  "lose_to j = [Run 5, Run 5, Run j, Run j, Run j, Run j, Run j, Run 5, Run 5, Run 5]"

definition starved :: "event list" where
  "starved = [Run 5, Run 5] @ lose_to 0 @ lose_to 1 @ lose_to 2 @ lose_to 3 @ lose_to 4 @ [Run 5, Run 5]"

text \<open>What a system has come to: the labels of its calls and the stock counter.\<close>

definition outcome :: "system \<Rightarrow> label list \<times> redis_str option" where
  "outcome s = (map pc (calls s), stock (store (env s)))"

text \<open>
  Three calls that have entered \<^verbatim>\<open>attemptPurchase\<close>, each on a connection of its own, against
  stock 2; in the schedule \<open>in_turn\<close> they run one after the other.
\<close>

definition three_calls :: system where
  "three_calls =
     \<lparr>env = w0\<lparr>store := store0\<lparr>stock := Some (IntStr 2)\<rparr>\<rparr>,
      calls = [(attempt ''alice'' 1500 (Fin 1000) (Fin 2000))\<lparr>conn := 0, pc := Loop\<rparr>,
               (attempt ''bob'' 1500 (Fin 1000) (Fin 2000))\<lparr>conn := 1, pc := Loop\<rparr>,
               (attempt ''carol'' 1500 (Fin 1000) (Fin 2000))\<lparr>conn := 2, pc := Loop\<rparr>]\<rparr>"

definition in_turn :: "event list" where
  "in_turn = [Run 0, Run 0, Run 0, Run 1, Run 1, Run 1, Run 2, Run 2, Run 2]"

subsection \<open>The window, read afresh\<close>

text \<open>
  What the window check would give if it read the clock and the configuration at the moment
  it runs, as the specification words it. The code's own check is \<open>window_closed\<close> on the
  values the call carries.
\<close>

definition window_closed_now :: "world \<Rightarrow> bool" where
  "window_closed_now w =
     window_closed (clock w) (Number_field (cfg_startsAt (config (store w))))
       (Number_field (cfg_endsAt (config (store w))))"

text \<open>
  The two requests of \<open>sys0\<close>. \<open>alice_entered\<close>: the first has read the configuration and the
  clock (1500) and entered \<^verbatim>\<open>attemptPurchase\<close>. \<open>lost_race\<close>: its first commit is rejected because
  the second request commits first; the clock then moves on to 6500, past the end of the
  sale, and the first request comes back to the head of its loop.
\<close>

definition alice_entered :: system where
  "alice_entered = exec_sched [Run 0, Run 0] sys0"

definition lost_race :: "event list" where
  "lost_race = [Run 0, Run 0, Run 1, Run 1, Run 1, Run 1, Run 1, Run 0, Run 0, Tick 5000, Run 0]"

definition closes_mid_retry :: "event list" where
  "closes_mid_retry = [Run 0, Run 0] @ lost_race"

subsection \<open>Receipts, once written\<close>

text \<open>
  What a call in flight needs for the receipts to be safe from it: it has entered
  \<^verbatim>\<open>attemptPurchase\<close>, it is not in the guard rollback, and between its WATCH and its EXEC its
  connection watches the two keys, so that the EXEC is rejected unless the stock and the
  buyer's receipt slot are still as the checks after MGET found them.
\<close>

definition own_conn :: "world \<Rightarrow> proc \<Rightarrow> bool" where
  "own_conn w p =
     (conn p < length (sessions w)
      \<and> pc p \<noteq> Start \<and> pc p \<noteq> Enter \<and> pc p \<noteq> Rollback
      \<and> (pc p = Mget \<longrightarrow> StockKey \<in> watched (sessions w ! conn p)
            \<and> UserKey (userId p) \<in> watched (sessions w ! conn p))
      \<and> (pc p = Exec \<longrightarrow> StockKey \<in> watched (sessions w ! conn p)
            \<and> UserKey (userId p) \<in> watched (sessions w ! conn p)
            \<and> (dirty (sessions w ! conn p)
                \<or> (decr_safe (stock (store w)) \<and> \<not> truthy (receipts (store w) (userId p))))))"

definition perm_inv :: "system \<Rightarrow> bool" where
  "perm_inv s = ((\<forall>p\<in>set (calls s). own_conn (env s) p) \<and> distinct (map conn (calls s)))"

text \<open>
  Two calls of the same buyer, each on a connection of its own, both past WATCH and MGET
  before the first commits (\<open>first_commits\<close>); the second is then rejected, retries and finds
  the receipt (\<open>second_retries\<close>). \<open>later_ops\<close>: operations that follow a first purchase.
\<close>

definition twice_alice :: system where
  "twice_alice =
     \<lparr>env = w0,
      calls = [(attempt ''alice'' 1500 (Fin 1000) (Fin 2000))\<lparr>conn := 0, pc := Loop\<rparr>,
               (attempt ''alice'' 1500 (Fin 1000) (Fin 2000))\<lparr>conn := 1, pc := Loop\<rparr>]\<rparr>"

definition first_commits :: "event list" where
  "first_commits = [Run 0, Run 1, Run 0, Run 1, Run 0]"

definition second_retries :: "event list" where
  "second_retries = [Run 1, Run 1, Run 1, Run 1, Run 1, Run 1]"

definition later_ops :: "op list" where
  "later_ops = [Reserve '' alice'', LookupOp ''alice'', StatusOp, Wait 600, Reserve ''bob'',
                Reserve ''alice'']"

text \<open>
  Nine requests in flight against stock \<open>S\<close>, the first and the ninth of the same buyer. The
  pool has eight connections, so the ninth call is handed connection 0 again (\<open>all_enter\<close>,
  and \<open>late_ninth\<close>, where the ninth request arrives 100 ms after the others). In \<open>in_step\<close>
  both calls issue WATCH and MGET on that connection and the first commits; in
  \<open>second_commit\<close> the ninth issues its EXEC and what follows.
\<close>

definition nine_requests :: "int \<Rightarrow> system" where
  "nine_requests S =
     \<lparr>env = w0\<lparr>store := store0\<lparr>stock := Some (IntStr S)\<rparr>\<rparr>,
      calls = map new_call [''alice'', ''buyer1'', ''buyer2'', ''buyer3'', ''buyer4'',
                            ''buyer5'', ''buyer6'', ''buyer7'', ''alice'']\<rparr>"

definition all_enter :: "event list" where
  "all_enter = [Run 0, Run 0, Run 1, Run 1, Run 2, Run 2, Run 3, Run 3, Run 4, Run 4,
                Run 5, Run 5, Run 6, Run 6, Run 7, Run 7, Run 8, Run 8]"

definition late_ninth :: "event list" where
  "late_ninth = [Run 0, Run 0, Run 1, Run 1, Run 2, Run 2, Run 3, Run 3, Run 4, Run 4,
                 Run 5, Run 5, Run 6, Run 6, Run 7, Run 7, Tick 100, Run 8, Run 8]"

definition in_step :: "event list" where
  "in_step = [Run 0, Run 8, Run 0, Run 8, Run 0]"

definition second_commit :: "event list" where
  "second_commit = [Run 8, Run 8]"

section \<open>Every call ends\<close>

lemma call_step_final: "final (pc p) \<Longrightarrow> call_step (p, w) = (p, w)"
  by (cases "pc p") (simp_all add: call_step_def)

lemma fuel_left_0: "fuel_left p = 0 \<longleftrightarrow> final (pc p)"
  by (cases "pc p") (simp_all add: fuel_left_def)

lemma fuel_left_bound: "fuel_left p \<le> 6 * MAX_RETRIES + 4"
  by (cases "pc p") (simp_all add: fuel_left_def MAX_RETRIES_def)

lemma call_step_fuel:
  "\<not> final (pc p) \<Longrightarrow> fuel_left (fst (call_step (p, w))) < fuel_left p"
  by (cases "pc p")
     (auto simp: fuel_left_def call_step_def doPurchase_entry_def doPurchase_call_def
        attemptPurchase_entry_def loop_head_def mget_checks_def exec_purchase_def
        exec_rollback_def Let_def
        split: prod.splits option.splits)

lemma funpow_fuel:
  "fuel_left (fst ((call_step ^^ n) x)) \<le> fuel_left (fst x) - n"
proof (induction n)
  case 0
  then show ?case by simp
next
  case (Suc n)
  obtain p w where pw: "(call_step ^^ n) x = (p, w)" by (cases "(call_step ^^ n) x")
  show ?case
  proof (cases "final (pc p)")
    case True
    then have "fuel_left p = 0" by (simp add: fuel_left_0)
    with True pw show ?thesis by (simp add: call_step_final)
  next
    case False
    from call_step_fuel[OF False, of w] Suc pw show ?thesis by simp
  qed
qed

lemma run_call_final: "final (pc (fst (run_call x)))"
proof -
  have "fuel_left (fst (run_call x)) \<le> fuel_left (fst x) - (6 * MAX_RETRIES + 4)"
    unfolding run_call_def by (rule funpow_fuel)
  with fuel_left_bound[of "fst x"] have "fuel_left (fst (run_call x)) = 0" by simp
  then show ?thesis by (simp only: fuel_left_0)
qed

lemma funpow_final: "final (pc p) \<Longrightarrow> (call_step ^^ n) (p, w) = (p, w)"
  by (induction n) (simp_all add: call_step_final)

lemma run_call_done: "final (pc p) \<Longrightarrow> run_call (p, w) = (p, w)"
  by (simp add: run_call_def funpow_final)

lemma run_call_step: "run_call x = run_call (call_step x)"
proof -
  obtain p w where pw: "run_call x = (p, w)" by (cases "run_call x")
  have fin: "final (pc p)" using run_call_final[of x] pw by simp
  have "run_call (call_step x) = call_step (run_call x)"
    unfolding run_call_def by (simp only: funpow_swap1)
  also have "\<dots> = run_call x" using fin pw by (simp add: call_step_final)
  finally show ?thesis by simp
qed

text \<open>Running a call, label by label.\<close>

lemma run_call_Start: "pc p = Start \<Longrightarrow> run_call (p, w) = run_call (doPurchase_entry p w)"
  by (subst run_call_step) (simp add: call_step_def)

lemma run_call_Enter: "pc p = Enter \<Longrightarrow> run_call (p, w) = run_call (doPurchase_call p w)"
  by (subst run_call_step) (simp add: call_step_def)

lemma run_call_Loop: "pc p = Loop \<Longrightarrow> run_call (p, w) = run_call (loop_head p w)"
  by (subst run_call_step) (simp add: call_step_def)

lemma run_call_Mget: "pc p = Mget \<Longrightarrow> run_call (p, w) = run_call (mget_checks p w)"
  by (subst run_call_step) (simp add: call_step_def)

lemma run_call_Exec: "pc p = Exec \<Longrightarrow> run_call (p, w) = run_call (exec_purchase p w)"
  by (subst run_call_step) (simp add: call_step_def)

lemma run_call_UnwatchRetry:
  "pc p = UnwatchRetry \<Longrightarrow> run_call (p, w) = run_call (p\<lparr>pc := Sleep\<rparr>, UNWATCH (conn p) w)"
  by (subst run_call_step) (simp add: call_step_def)

lemma run_call_Sleep:
  "pc p = Sleep \<Longrightarrow> run_call (p, w) = run_call (p\<lparr>tries := tries p + 1, pc := Loop\<rparr>, w)"
  by (subst run_call_step) (simp add: call_step_def)

lemma run_call_Rollback: "pc p = Rollback \<Longrightarrow> run_call (p, w) = run_call (exec_rollback p w)"
  by (subst run_call_step) (simp add: call_step_def)

lemma run_call_Unwatch:
  "pc p = Unwatch r \<Longrightarrow> run_call (p, w) = (p\<lparr>pc := Done r\<rparr>, UNWATCH (conn p) w)"
  by (subst run_call_step) (simp add: call_step_def run_call_done)

lemmas run_call_simps = run_call_Start run_call_Enter run_call_Loop run_call_Mget run_call_Exec
  run_call_UnwatchRetry run_call_Sleep run_call_Rollback run_call_Unwatch run_call_done

lemma store_WATCH [simp]: "store (WATCH c ks w) = store w"
  by (simp add: WATCH_def)

lemma store_UNWATCH [simp]: "store (UNWATCH c w) = store w"
  by (simp add: UNWATCH_def)

lemma store_touch [simp]: "store (touch k w) = store w"
  by (simp add: touch_def)

lemma sessions_WATCH [simp]:
  "sessions (WATCH c ks w) = (sessions w)[c := (sessions w ! c)\<lparr>watched := watched (sessions w ! c) \<union> ks\<rparr>]"
  by (simp add: WATCH_def)

lemma sessions_UNWATCH [simp]: "sessions (UNWATCH c w) = (sessions w)[c := fresh_session]"
  by (simp add: UNWATCH_def)

lemma dirty_fresh [simp]: "\<not> dirty fresh_session"
  by (simp add: fresh_session_def)

lemmas step_defs = loop_head_def mget_checks_def exec_purchase_def exec_rollback_def
  multi_exec_def purchase_block_def rollback_block_def DECR_stock_def INCR_stock_def
  SET_user_def DEL_user_def LPUSH_orders_def

lemmas scenario_defs = w0_def store0_def cfg0_def

section \<open>One call of the engine on its own\<close>

text \<open>
  C3 (window enforcement). When \<open>now < startsAt\<close> or \<open>now > endsAt\<close>, \<^verbatim>\<open>attemptPurchase\<close>
  returns code 3 (window closed) for every buyer, whatever the stock is and whether or not
  the buyer holds a receipt, and the stock counter, the receipts and the order log are as
  they were.
\<close>

theorem window_enforcement:
  assumes "sessions w \<noteq> []"
    and "js_lt (Fin (of_int n)) sa \<or> js_gt (Fin (of_int n)) ea"
  shows "fst (attemptPurchase u n sa ea w) = Done \<lparr>code = 3, orderId = None, reason = None\<rparr>
       \<and> store (snd (attemptPurchase u n sa ea w)) = store w"
  using assms
  by (simp add: attemptPurchase_def attempt_def attemptPurchase_entry_def run_call_simps loop_head_def
      MAX_RETRIES_def window_closed_def)

theorem window_enforcement_witness:
  "sessions w0 \<noteq> [] \<and> js_lt (Fin (of_int 500)) (Fin 1000)
   \<and> fst (attemptPurchase ''alice'' 500 (Fin 1000) (Fin 2000) w0)
       = Done \<lparr>code = 3, orderId = None, reason = None\<rparr>
   \<and> store (snd (attemptPurchase ''alice'' 500 (Fin 1000) (Fin 2000) w0)) = store w0"
  using window_enforcement[of w0 500 "Fin 1000" "Fin 2000" "''alice''"]
  by (simp add: w0_def)

text \<open>
  C5 (duplicate rejection). Inside the window, for a buyer whose receipt slot holds an
  order identifier (a text that is not empty, as every identifier the engine writes is),
  \<^verbatim>\<open>attemptPurchase\<close> returns code 1 with exactly that identifier, and the stock counter,
  the receipts and the order log are as they were.
\<close>

theorem duplicate_rejection:
  assumes "sessions w \<noteq> []"
    and "\<not> (js_lt (Fin (of_int n)) sa \<or> js_gt (Fin (of_int n)) ea)"
    and "receipts (store w) u = Some oid" and "oid \<noteq> []"
  shows "fst (attemptPurchase u n sa ea w) = Done \<lparr>code = 1, orderId = Some oid, reason = None\<rparr>
       \<and> store (snd (attemptPurchase u n sa ea w)) = store w"
  using assms
  by (simp add: attemptPurchase_def attempt_def attemptPurchase_entry_def run_call_simps loop_head_def
      mget_checks_def MAX_RETRIES_def window_closed_def)

theorem duplicate_rejection_witness:
  "sessions (w0\<lparr>store := store0\<lparr>receipts := [''alice'' \<mapsto> ''1200:alice'']\<rparr>\<rparr>) \<noteq> []
   \<and> \<not> (js_lt (Fin (of_int 1500)) (Fin 1000) \<or> js_gt (Fin (of_int 1500)) (Fin 2000))
   \<and> receipts (store (w0\<lparr>store := store0\<lparr>receipts := [''alice'' \<mapsto> ''1200:alice'']\<rparr>\<rparr>)) ''alice''
       = Some ''1200:alice''
   \<and> ''1200:alice'' \<noteq> []
   \<and> fst (attemptPurchase ''alice'' 1500 (Fin 1000) (Fin 2000)
            (w0\<lparr>store := store0\<lparr>receipts := [''alice'' \<mapsto> ''1200:alice'']\<rparr>\<rparr>))
       = Done \<lparr>code = 1, orderId = Some ''1200:alice'', reason = None\<rparr>
   \<and> store (snd (attemptPurchase ''alice'' 1500 (Fin 1000) (Fin 2000)
            (w0\<lparr>store := store0\<lparr>receipts := [''alice'' \<mapsto> ''1200:alice'']\<rparr>\<rparr>)))
       = store0\<lparr>receipts := [''alice'' \<mapsto> ''1200:alice'']\<rparr>"
  using duplicate_rejection[of "w0\<lparr>store := store0\<lparr>receipts := [''alice'' \<mapsto> ''1200:alice'']\<rparr>\<rparr>"
      1500 "Fin 1000" "Fin 2000" "''alice''" "''1200:alice''"]
  by (simp add: w0_def js_gt_def)

text \<open>
  C6 (sold-out rejection). Inside the window, for a buyer without a receipt,
  \<^verbatim>\<open>attemptPurchase\<close> returns code 2 (sold out) when the stock counter is absent, is not a
  finite number, or is at most 0, and the store is as it was.
\<close>

theorem sold_out_rejection:
  assumes "sessions w \<noteq> []"
    and "\<not> (js_lt (Fin (of_int n)) sa \<or> js_gt (Fin (of_int n)) ea)"
    and "receipts (store w) u = None"
    and "stock (store w) = None
       \<or> (\<exists>s. stock (store w) = Some s
              \<and> (\<not> js_finite (Number_str s) \<or> js_le (Number_str s) (Fin 0)))"
  shows "fst (attemptPurchase u n sa ea w) = Done \<lparr>code = 2, orderId = None, reason = None\<rparr>
       \<and> store (snd (attemptPurchase u n sa ea w)) = store w"
  using assms
  by (auto simp add: attemptPurchase_def attempt_def attemptPurchase_entry_def run_call_simps loop_head_def
      mget_checks_def MAX_RETRIES_def window_closed_def Number_or_zero_def js_le_def)

theorem sold_out_rejection_witness:
  "sessions w0 \<noteq> []
   \<and> \<not> (js_lt (Fin (of_int 1500)) (Fin 1000) \<or> js_gt (Fin (of_int 1500)) (Fin 2000))
   \<and> \<not> js_finite (Number_str (RawStr NaN)) \<and> js_le (Number_str (IntStr (- 3))) (Fin 0)
   \<and> fst (attemptPurchase ''alice'' 1500 (Fin 1000) (Fin 2000) (w0\<lparr>store := store0\<lparr>stock := None\<rparr>\<rparr>))
       = Done \<lparr>code = 2, orderId = None, reason = None\<rparr>
   \<and> store (snd (attemptPurchase ''alice'' 1500 (Fin 1000) (Fin 2000)
                   (w0\<lparr>store := store0\<lparr>stock := None\<rparr>\<rparr>)))
       = store0\<lparr>stock := None\<rparr>
   \<and> fst (attemptPurchase ''alice'' 1500 (Fin 1000) (Fin 2000)
            (w0\<lparr>store := store0\<lparr>stock := Some (RawStr NaN)\<rparr>\<rparr>))
       = Done \<lparr>code = 2, orderId = None, reason = None\<rparr>
   \<and> fst (attemptPurchase ''alice'' 1500 (Fin 1000) (Fin 2000)
            (w0\<lparr>store := store0\<lparr>stock := Some (IntStr (- 3))\<rparr>\<rparr>))
       = Done \<lparr>code = 2, orderId = None, reason = None\<rparr>"
  using sold_out_rejection[of "w0\<lparr>store := store0\<lparr>stock := None\<rparr>\<rparr>"
      1500 "Fin 1000" "Fin 2000" "''alice''"]
    sold_out_rejection[of "w0\<lparr>store := store0\<lparr>stock := Some (RawStr NaN)\<rparr>\<rparr>"
      1500 "Fin 1000" "Fin 2000" "''alice''"]
    sold_out_rejection[of "w0\<lparr>store := store0\<lparr>stock := Some (IntStr (- 3))\<rparr>\<rparr>"
      1500 "Fin 1000" "Fin 2000" "''alice''"]
  by (simp add: w0_def store0_def js_gt_def js_le_def)

subsection \<open>A successful reservation\<close>

lemma funpow_invariant: "P x \<Longrightarrow> (\<And>y. P y \<Longrightarrow> P (f y)) \<Longrightarrow> P ((f ^^ n) x)"
  by (induction n) simp_all

lemma order_id_nonempty: "order_id n u \<noteq> []"
  by (simp add: order_id_def)

lemma show_1500: "show_int 1500 = ''1500''"
  by code_simp

text \<open>
  The run of the call. When the connection it is given is already marked dirty, its first
  commit is rejected and the second attempt commits.
\<close>

lemma reserve_run:
  assumes pool: "sessions w \<noteq> []"
    and window: "\<not> (js_lt (Fin (of_int n)) sa \<or> js_gt (Fin (of_int n)) ea)"
    and norec: "receipts (store w) u = None"
    and st: "stock (store w) = Some (IntStr k)" and k: "1 \<le> k"
  shows "fst (attemptPurchase u n sa ea w) = Done \<lparr>code = 0, orderId = Some (order_id n u), reason = None\<rparr>
       \<and> store (snd (attemptPurchase u n sa ea w)) =
           (store w)\<lparr>stock := Some (IntStr (k - 1)),
                     receipts := (receipts (store w))(u \<mapsto> order_id n u),
                     orders := \<lparr>o_userId = u, o_ts = n, o_orderId = order_id n u\<rparr> # orders (store w)\<rparr>"
proof (cases "dirty (sessions w ! (rr w mod length (sessions w)))")
  case False
  with assms show ?thesis
    by (simp add: attemptPurchase_def attempt_def attemptPurchase_entry_def run_call_simps step_defs
      MAX_RETRIES_def window_closed_def Number_or_zero_def js_le_def)
next
  case True
  with assms show ?thesis
    by (simp add: attemptPurchase_def attempt_def attemptPurchase_entry_def run_call_simps step_defs
      MAX_RETRIES_def window_closed_def Number_or_zero_def js_le_def)
qed

lemma one_commit_step:
  assumes "stock s = Some (IntStr k)" "1 \<le> k"
    and s': "s' = s\<lparr>stock := Some (IntStr (k - 1)),
                     receipts := (receipts s)(u \<mapsto> order_id n u),
                     orders := \<lparr>o_userId = u, o_ts = n, o_orderId = order_id n u\<rparr> # orders s\<rparr>"
    and J: "one_commit s s' u n x"
  shows "one_commit s s' u n (call_step x)"
proof -
  obtain p w where x: "x = (p, w)" by (cases x)
  show ?thesis using assms unfolding x one_commit_def
    by (cases "pc p")
      (auto simp: call_step_def step_defs Let_def split: prod.splits option.splits redis_str.splits)
qed

lemma reserve_atomic:
  assumes pool: "sessions w \<noteq> []"
    and st: "stock (store w) = Some (IntStr k)" and k: "1 \<le> k"
  shows "store (snd (attemptPurchase_upto i u n sa ea w)) \<in>
      {store w, (store w)\<lparr>stock := Some (IntStr (k - 1)),
                     receipts := (receipts (store w))(u \<mapsto> order_id n u),
                     orders := \<lparr>o_userId = u, o_ts = n, o_orderId = order_id n u\<rparr> # orders (store w)\<rparr>}"
    (is "_ \<in> {_, ?s'}")
proof -
  let ?x0 = "attemptPurchase_entry (attempt u n sa ea) w"
  have "one_commit (store w) ?s' u n ?x0"
    using pool by (simp add: one_commit_def attemptPurchase_entry_def attempt_def)
  then have "one_commit (store w) ?s' u n ((call_step ^^ i) ?x0)"
    by (rule funpow_invariant) (rule one_commit_step[OF st k refl])
  then show ?thesis
    by (auto simp: one_commit_def attemptPurchase_upto_def split: prod.splits)
qed

text \<open>
  C2 (successful reservation), as amended. Inside the window, for a buyer without a
  receipt and an integer stock counter of at least 1, \<^verbatim>\<open>attemptPurchase\<close> returns code 0 with
  the order identifier made of the attempt's timestamp, a colon and the buyer's identity.
  The store it leaves has the counter lowered by exactly 1, that identifier as the buyer's
  receipt and one more entry at the head of the order log. The three writes are one atomic
  unit: after any number of steps of the call the store is either the one it started from
  or the one it ends with.
\<close>

theorem reservation_postcondition:
  assumes "sessions w \<noteq> []"
    and "\<not> (js_lt (Fin (of_int n)) sa \<or> js_gt (Fin (of_int n)) ea)"
    and "receipts (store w) u = None"
    and "stock (store w) = Some (IntStr k)" and "1 \<le> k"
  shows "fst (attemptPurchase u n sa ea w)
           = Done \<lparr>code = 0, orderId = Some (show_int n @ '':'' @ u), reason = None\<rparr>
       \<and> store (snd (attemptPurchase u n sa ea w))
           = (store w)\<lparr>stock := Some (IntStr (k - 1)),
                       receipts := (receipts (store w))(u \<mapsto> show_int n @ '':'' @ u),
                       orders := \<lparr>o_userId = u, o_ts = n, o_orderId = show_int n @ '':'' @ u\<rparr>
                                 # orders (store w)\<rparr>
       \<and> (\<forall>i. store (snd (attemptPurchase_upto i u n sa ea w))
                \<in> {store w, store (snd (attemptPurchase u n sa ea w))})"
  using reserve_run[OF assms] reserve_atomic[OF assms(1,4,5), of _ u n sa ea]
  by (simp add: order_id_def)

theorem reservation_postcondition_witness:
  "sessions w0 \<noteq> []
   \<and> \<not> (js_lt (Fin (of_int 1500)) (Fin 1000) \<or> js_gt (Fin (of_int 1500)) (Fin 2000))
   \<and> receipts (store w0) ''alice'' = None
   \<and> stock (store w0) = Some (IntStr 10) \<and> (1::int) \<le> 10
   \<and> fst (attemptPurchase ''alice'' 1500 (Fin 1000) (Fin 2000) w0)
       = Done \<lparr>code = 0, orderId = Some ''1500:alice'', reason = None\<rparr>
   \<and> store (snd (attemptPurchase ''alice'' 1500 (Fin 1000) (Fin 2000) w0))
       = store0\<lparr>stock := Some (IntStr 9), receipts := [''alice'' \<mapsto> ''1500:alice''],
                orders := [\<lparr>o_userId = ''alice'', o_ts = 1500, o_orderId = ''1500:alice''\<rparr>]\<rparr>
   \<and> (\<forall>i. store (snd (attemptPurchase_upto i ''alice'' 1500 (Fin 1000) (Fin 2000) w0))
            \<in> {store0, store (snd (attemptPurchase ''alice'' 1500 (Fin 1000) (Fin 2000) w0))})"
  using reservation_postcondition[of w0 1500 "Fin 1000" "Fin 2000" "''alice''" 10]
  by (auto simp add: w0_def store0_def js_gt_def show_1500)

text \<open>
  The claim as first stated has the identifier equal to the timestamp followed directly by
  the buyer's identity. For buyer \<open>alice\<close> at time 1500 the engine returns \<open>1500:alice\<close>,
  which is not \<open>1500alice\<close>.
\<close>

theorem reservation_order_id_counterexample:
  "fst (attemptPurchase ''alice'' 1500 (Fin 1000) (Fin 2000) w0)
     = Done \<lparr>code = 0, orderId = Some ''1500:alice'', reason = None\<rparr>
   \<and> fst (attemptPurchase ''alice'' 1500 (Fin 1000) (Fin 2000) w0)
     \<noteq> Done \<lparr>code = 0, orderId = Some (show_int 1500 @ ''alice''), reason = None\<rparr>"
  using reserve_run[of w0 1500 "Fin 1000" "Fin 2000" "''alice''" 10]
  by (simp add: w0_def store0_def js_gt_def show_1500 order_id_def)

section \<open>The status resolver\<close>

text \<open>
  C7 (status resolver). \<^verbatim>\<open>getStatus\<close> leaves the world as it is and reports the window and
  the stock it read. The phase goes by first match: upcoming when \<open>now < startsAt\<close>; else
  ended when \<open>now > endsAt\<close>; else sold out when the stock is at most 0; else active.
  \<open>sold\<close> is the initial stock minus the stock reported (each with JavaScript's \<^verbatim>\<open>|| 0\<close>);
  for integer texts \<open>a\<close> and \<open>b\<close> that is \<open>a - b\<close>.
\<close>

theorem status_resolver:
  "snd (getStatus w) = w
   \<and> sv_startsAt (fst (getStatus w)) = Number_field (cfg_startsAt (config (store w)))
   \<and> sv_endsAt (fst (getStatus w)) = Number_field (cfg_endsAt (config (store w)))
   \<and> sv_stock (fst (getStatus w)) = js_or0 (Number_get (stock (store w)))
   \<and> (js_lt (Fin (of_int (clock w))) (sv_startsAt (fst (getStatus w)))
        \<longrightarrow> status (fst (getStatus w)) = upcoming)
   \<and> (\<not> js_lt (Fin (of_int (clock w))) (sv_startsAt (fst (getStatus w)))
        \<and> js_gt (Fin (of_int (clock w))) (sv_endsAt (fst (getStatus w)))
        \<longrightarrow> status (fst (getStatus w)) = ended)
   \<and> (\<not> js_lt (Fin (of_int (clock w))) (sv_startsAt (fst (getStatus w)))
        \<and> \<not> js_gt (Fin (of_int (clock w))) (sv_endsAt (fst (getStatus w)))
        \<and> js_le (sv_stock (fst (getStatus w))) (Fin 0)
        \<longrightarrow> status (fst (getStatus w)) = sold_out)
   \<and> (\<not> js_lt (Fin (of_int (clock w))) (sv_startsAt (fst (getStatus w)))
        \<and> \<not> js_gt (Fin (of_int (clock w))) (sv_endsAt (fst (getStatus w)))
        \<and> \<not> js_le (sv_stock (fst (getStatus w))) (Fin 0)
        \<longrightarrow> status (fst (getStatus w)) = active)
   \<and> sold (fst (getStatus w))
       = js_sub (js_or0 (Number_field (cfg_initialStock (config (store w)))))
                (sv_stock (fst (getStatus w)))
   \<and> (\<forall>a b. cfg_initialStock (config (store w)) = Some (IntStr a)
              \<and> stock (store w) = Some (IntStr b)
        \<longrightarrow> sold (fst (getStatus w)) = Fin (of_int (a - b)))"
  by (auto simp add: getStatus_def Let_def js_or0_def)

theorem status_resolver_witness:
  "status (fst (getStatus (at_clock 500 0))) = upcoming
   \<and> status (fst (getStatus (at_clock 2500 0))) = ended
   \<and> status (fst (getStatus (at_clock 1500 0))) = sold_out
   \<and> status (fst (getStatus (at_clock 1500 7))) = active
   \<and> sold (fst (getStatus (at_clock 1500 7))) = Fin 3
   \<and> snd (getStatus (at_clock 1500 7)) = at_clock 1500 7"
  using status_resolver[of "at_clock 500 0"] status_resolver[of "at_clock 2500 0"]
    status_resolver[of "at_clock 1500 0"] status_resolver[of "at_clock 1500 7"]
  by (simp add: at_clock_def scenario_defs js_gt_def js_le_def js_or0_def)

section \<open>The codes of \<^verbatim>\<open>attemptPurchase\<close>\<close>

lemma label_ok_step: "label_ok (pc (fst x)) \<Longrightarrow> label_ok (pc (fst (call_step x)))"
proof -
  obtain p w where x: "x = (p, w)" by (cases x)
  show "label_ok (pc (fst x)) \<Longrightarrow> label_ok (pc (fst (call_step x)))" unfolding x
    by (cases "pc p")
      (auto simp: label_ok_def call_step_def step_defs doPurchase_entry_def doPurchase_call_def
         attemptPurchase_entry_def Let_def split: prod.splits option.splits)
qed

lemma label_ok_run: "label_ok (pc (fst x)) \<Longrightarrow> label_ok (pc (fst (run_call x)))"
  unfolding run_call_def by (rule funpow_invariant[where P = "\<lambda>x. label_ok (pc (fst x))"]) (auto intro: label_ok_step)

lemma respond_known: "code r \<le> 4 \<Longrightarrow> respond r \<noteq> UnknownError"
  by (simp add: respond_def)

lemma label_ok_fire:
  "\<forall>p\<in>set (calls s). label_ok (pc p) \<Longrightarrow> \<forall>p\<in>set (calls (fire e s)). label_ok (pc p)"
proof (cases e)
  case (Run i)
  assume a: "\<forall>p\<in>set (calls s). label_ok (pc p)"
  show ?thesis
  proof (cases "i < length (calls s)")
    case True
    then have "label_ok (pc (calls s ! i))" using a by simp
    then have "label_ok (pc (fst (call_step (calls s ! i, env s))))"
      using label_ok_step[of "(calls s ! i, env s)"] by simp
    moreover have "set ((calls s)[i := fst (call_step (calls s ! i, env s))])
        \<subseteq> insert (fst (call_step (calls s ! i, env s))) (set (calls s))"
      by (rule set_update_subset_insert)
    ultimately show ?thesis using a True Run
      by (auto simp: split_beta)
  next
    case False
    with a Run show ?thesis by simp
  qed
next
  case (Tick d)
  assume "\<forall>p\<in>set (calls s). label_ok (pc p)"
  with Tick show ?thesis by simp
qed

lemma label_ok_sched:
  "\<forall>p\<in>set (calls s). label_ok (pc p) \<Longrightarrow> \<forall>p\<in>set (calls (exec_sched es s)). label_ok (pc p)"
  unfolding exec_sched_def
proof (induction es arbitrary: s)
  case Nil
  then show ?case by simp
next
  case (Cons e es)
  from Cons.prems have "\<forall>p\<in>set (calls (fire e s)). label_ok (pc p)" by (rule label_ok_fire)
  then have "\<forall>p\<in>set (calls (fold fire es (fire e s))). label_ok (pc p)" by (rule Cons.IH)
  then show ?case by simp
qed

text \<open>
  C10 (result codes). Whenever \<^verbatim>\<open>attemptPurchase\<close> returns, the code of its result is one of
  0, 1, 2, 3, 4, so \<^verbatim>\<open>doPurchase\<close> never reaches its last line, the 500 \<^verbatim>\<open>{error: "unknown"}\<close>.
  This holds for the call on its own and for every call of a system of concurrent calls,
  under every schedule.
\<close>

theorem result_codes:
  "(\<forall>r. fst (attemptPurchase u n sa ea w) = Done r
        \<longrightarrow> code r \<in> {0, 1, 2, 3, 4} \<and> respond r \<noteq> UnknownError)
   \<and> fst (doPurchase b w) \<noteq> Some UnknownError
   \<and> ((\<forall>p\<in>set (calls s). pc p = Start)
       \<longrightarrow> (\<forall>p\<in>set (calls (exec_sched es s)). \<forall>r. pc p = Done r
             \<longrightarrow> code r \<in> {0, 1, 2, 3, 4} \<and> respond r \<noteq> UnknownError))"
proof (intro conjI allI impI ballI)
  have le4: "\<And>k::nat. k \<le> 4 \<Longrightarrow> k \<in> {0, 1, 2, 3, 4}" by auto
  have "label_ok (pc (fst (attemptPurchase_entry (attempt u n sa ea) w)))"
    by (simp add: attemptPurchase_entry_def attempt_def label_ok_def)
  then have ok: "label_ok (pc (fst (run_call (attemptPurchase_entry (attempt u n sa ea) w))))"
    by (rule label_ok_run)
  { fix r assume "fst (attemptPurchase u n sa ea w) = Done r"
    with ok have "code r \<le> 4"
      by (auto simp: attemptPurchase_def label_ok_def split: prod.splits)
    then show "code r \<in> {0, 1, 2, 3, 4}" "respond r \<noteq> UnknownError"
      using le4 respond_known by blast+ }
  have "label_ok (pc (fst (run_call (new_call b, w))))"
    by (rule label_ok_run) (simp add: new_call_def label_ok_def)
  then show "fst (doPurchase b w) \<noteq> Some UnknownError"
    using respond_known
    by (cases "pc (fst (run_call (new_call b, w)))")
       (auto simp: doPurchase_def label_ok_def split: prod.splits)
  { fix p r assume a: "\<forall>p\<in>set (calls s). pc p = Start"
      and p: "p \<in> set (calls (exec_sched es s))" and d: "pc p = Done r"
    from a have "\<forall>p\<in>set (calls s). label_ok (pc p)" by (simp add: label_ok_def)
    then have "\<forall>p\<in>set (calls (exec_sched es s)). label_ok (pc p)" by (rule label_ok_sched)
    with p d have "code r \<le> 4" by (auto simp: label_ok_def)
    then show "code r \<in> {0, 1, 2, 3, 4}" "respond r \<noteq> UnknownError"
      using le4 respond_known by blast+ }
qed

lemma sys0_alice:
  "calls (exec_sched [Run 0, Run 0, Run 0, Run 0, Run 0] sys0)
     = [\<lparr>userId = ''alice'', now = 1500, startsAt = Fin 1000, endsAt = Fin 2000, conn = 0, tries = 0,
          pc = Done \<lparr>code = 0, orderId = Some ''1500:alice'', reason = None\<rparr>\<rparr>, new_call ''bob'']"
  by code_simp

lemma doPurchase_alice:
  "fst (doPurchase ''alice'' w0) = Some (Purchased (Some ''1500:alice''))"
  by code_simp

theorem result_codes_witness:
  "fst (attemptPurchase ''alice'' 1500 (Fin 1000) (Fin 2000) w0)
     = Done \<lparr>code = 0, orderId = Some ''1500:alice'', reason = None\<rparr>
   \<and> code \<lparr>code = 0, orderId = Some ''1500:alice'', reason = None\<rparr> \<in> {0, 1, 2, 3, 4}
   \<and> respond \<lparr>code = 0, orderId = Some ''1500:alice'', reason = None\<rparr> \<noteq> UnknownError
   \<and> fst (doPurchase ''alice'' w0) \<noteq> Some UnknownError
   \<and> list_all (\<lambda>p. pc p = Start) (calls sys0)
   \<and> pc (calls (exec_sched [Run 0, Run 0, Run 0, Run 0, Run 0] sys0) ! 0)
       = Done \<lparr>code = 0, orderId = Some ''1500:alice'', reason = None\<rparr>"
proof -
  have start: "\<forall>p\<in>set (calls sys0). pc p = Start"
    by (simp add: sys0_def new_call_def)
  have run: "fst (attemptPurchase ''alice'' 1500 (Fin 1000) (Fin 2000) w0)
      = Done \<lparr>code = 0, orderId = Some ''1500:alice'', reason = None\<rparr>"
    using reserve_run[of w0 1500 "Fin 1000" "Fin 2000" "''alice''" 10]
    by (simp add: w0_def store0_def js_gt_def order_id_def show_1500)
  from start have "list_all (\<lambda>p. pc p = Start) (calls sys0)"
    by (simp add: list_all_iff)
  with run show ?thesis
    using result_codes[of "''alice''" 1500 "Fin 1000" "Fin 2000" w0 "''alice''" sys0
        "[Run 0, Run 0, Run 0, Run 0, Run 0]"]
    by (simp add: sys0_alice)
qed

section \<open>Operations one after another\<close>

lemma keeps_step:
  assumes "oid \<noteq> []" "keeps b oid x"
  shows "keeps b oid (call_step x)"
proof -
  obtain p w where x: "x = (p, w)" by (cases x)
  show ?thesis using assms unfolding x keeps_def buyer_is_def
    by (cases "pc p")
      (auto simp: call_step_def step_defs doPurchase_entry_def doPurchase_call_def
         attemptPurchase_entry_def Let_def split: prod.splits option.splits redis_str.splits)
qed

lemma keeps_doPurchase:
  assumes "receipts (store w) b = Some oid" "oid \<noteq> []"
  shows "receipts (store (snd (doPurchase u w))) b = Some oid"
proof -
  have "keeps b oid (new_call u, w)"
    using assms by (simp add: keeps_def buyer_is_def new_call_def)
  then have "keeps b oid (run_call (new_call u, w))"
    unfolding run_call_def by (rule funpow_invariant) (rule keeps_step[OF assms(2)])
  then show ?thesis by (auto simp add: keeps_def doPurchase_def split: prod.splits)
qed

lemma keeps_op:
  assumes "receipts (store w) b = Some oid" "oid \<noteq> []"
  shows "receipts (store (exec_op x w)) b = Some oid"
  using assms by (cases x) (simp_all add: keeps_doPurchase getPurchase_def getStatus_def Let_def)

lemma keeps_ops:
  assumes "receipts (store w) b = Some oid" "oid \<noteq> []"
  shows "receipts (store (exec_ops xs w)) b = Some oid"
  using assms(1) unfolding exec_ops_def
proof (induction xs arbitrary: w)
  case Nil
  then show ?case by simp
next
  case (Cons x xs)
  from Cons.prems have "receipts (store (exec_op x w)) b = Some oid"
    by (rule keeps_op) (rule assms(2))
  then show ?case using Cons.IH by simp
qed

lemma solo_step: "solo u x \<Longrightarrow> solo u (call_step x)"
proof -
  obtain p w where x: "x = (p, w)" by (cases x)
  show "solo u x \<Longrightarrow> solo u (call_step x)" unfolding x solo_def
    by (cases "pc p")
      (auto simp: call_step_def step_defs doPurchase_entry_def doPurchase_call_def
         attemptPurchase_entry_def Let_def decr_safe_def Number_or_zero_def js_le_def
         split: prod.splits option.splits redis_str.splits)
qed

lemma solo_run: "solo u (run_call (new_call u, w))"
  unfolding run_call_def
proof (rule funpow_invariant)
  show "solo u (new_call u, w)" by (simp add: solo_def new_call_def)
qed (rule solo_step)

lemma absent_step: "absent b u x \<Longrightarrow> absent b u (call_step x)"
proof -
  obtain p w where x: "x = (p, w)" by (cases x)
  assume a: "absent b u x"
  then have s: "solo u (call_step x)" by (simp add: absent_def solo_step)
  from a show "absent b u (call_step x)" using s unfolding x absent_def
    apply (simp only: simp_thms)
    unfolding solo_def
    by (cases "pc p")
      (auto simp: call_step_def step_defs doPurchase_entry_def doPurchase_call_def
         attemptPurchase_entry_def Let_def decr_safe_def
         split: prod.splits option.splits redis_str.splits if_splits)
qed

lemma absent_run:
  assumes "receipts (store w) b = None"
  shows "absent b u (run_call (new_call u, w))"
  unfolding run_call_def
proof (rule funpow_invariant)
  show "absent b u (new_call u, w)"
    using assms by (simp add: absent_def solo_def new_call_def)
qed (rule absent_step)

lemma absent_doPurchase:
  assumes "receipts (store w) b = None" "\<not> succeeds_for b (Reserve u) w"
  shows "receipts (store (snd (doPurchase u w))) b = None"
proof -
  obtain p w' where r: "run_call (new_call u, w) = (p, w')" by (cases "run_call (new_call u, w)")
  from absent_run[OF assms(1), of u] r
  have "receipts (store w') b = None \<or> (trim u = b \<and> (\<exists>r. pc p = Done r \<and> code r = 0))"
    by (simp add: absent_def)
  moreover from assms(2) r have "\<not> (trim u = b \<and> (\<exists>r. pc p = Done r \<and> code r = 0))"
    by (auto simp: doPurchase_def respond_def split: if_splits)
  ultimately show ?thesis using r by (simp add: doPurchase_def)
qed

lemma absent_ops:
  assumes "receipts (store w) b = None" "no_purchase_by b xs w"
  shows "receipts (store (exec_ops xs w)) b = None"
  using assms unfolding exec_ops_def
proof (induction xs arbitrary: w)
  case Nil
  then show ?case by simp
next
  case (Cons x xs)
  have "receipts (store (exec_op x w)) b = None"
  proof (cases x)
    case (Reserve u)
    with Cons.prems show ?thesis using absent_doPurchase[of w b u] by simp
  next
    case (LookupOp u)
    with Cons.prems show ?thesis by (simp add: getPurchase_def Let_def)
  next
    case StatusOp
    with Cons.prems show ?thesis by (simp add: getStatus_def Let_def)
  next
    case (Wait d)
    with Cons.prems show ?thesis by simp
  qed
  with Cons show ?case by simp
qed

lemma purchased_receipt:
  assumes "fst (doPurchase u w) = Some (Purchased (Some oid))"
  shows "receipts (store (snd (doPurchase u w))) (trim u) = Some oid \<and> oid \<noteq> []
       \<and> 3 \<le> length (trim u)"
proof -
  obtain p w' where r: "run_call (new_call u, w) = (p, w')" by (cases "run_call (new_call u, w)")
  from assms r obtain res where d: "pc p = Done res" "code res = 0" "orderId res = Some oid"
    by (cases "pc p") (auto simp: doPurchase_def respond_def split: if_splits)
  from solo_run[of u w] r d have "receipts (store w') (trim u) = Some oid"
    and "oid = order_id (now p) (trim u)"
    by (auto simp: solo_def)
  moreover have "3 \<le> length (trim u)"
  proof (rule ccontr)
    assume "\<not> 3 \<le> length (trim u)"
    then have "run_call (new_call u, w) = ((new_call u)\<lparr>pc := Invalid\<rparr>, w)"
      by (simp add: run_call_simps new_call_def doPurchase_entry_def)
    with r d show False by auto
  qed
  ultimately show ?thesis using r by (simp add: doPurchase_def order_id_nonempty)
qed

text \<open>
  Lookups between operations that are run one after another. \<^verbatim>\<open>getPurchase\<close> never
  changes the world. For a valid buyer without a receipt it answers
  \<^verbatim>\<open>{purchased: false, orderId: null}\<close>, and goes on doing so after any operations among which
  no purchase for that buyer succeeds. After \<^verbatim>\<open>doPurchase\<close> has answered \<open>purchased\<close> with an
  order identifier, it answers \<^verbatim>\<open>{purchased: true, orderId}\<close> with that identifier, whatever
  operations follow. Its answer does not depend on the clock or the sale's configuration.
\<close>

lemma lookup_in_sequence:
  "snd (getPurchase u w) = w
   \<and> (3 \<le> length (trim u) \<and> receipts (store w) (trim u) = None \<and> no_purchase_by (trim u) xs w
        \<longrightarrow> fst (getPurchase u (exec_ops xs w)) = Lookup \<lparr>purchased = False, pv_orderId = None\<rparr>)
   \<and> (fst (doPurchase u w) = Some (Purchased (Some oid))
        \<longrightarrow> fst (getPurchase u (exec_ops ys (snd (doPurchase u w))))
            = Lookup \<lparr>purchased = True, pv_orderId = Some oid\<rparr>)
   \<and> fst (getPurchase u (w\<lparr>clock := t, store := (store w)\<lparr>config := c\<rparr>\<rparr>)) = fst (getPurchase u w)"
proof (intro conjI impI)
  show "snd (getPurchase u w) = w" by (simp add: getPurchase_def Let_def)
  show "fst (getPurchase u (w\<lparr>clock := t, store := (store w)\<lparr>config := c\<rparr>\<rparr>)) = fst (getPurchase u w)"
    by (simp add: getPurchase_def Let_def)
next
  assume "3 \<le> length (trim u) \<and> receipts (store w) (trim u) = None \<and> no_purchase_by (trim u) xs w"
  then have "3 \<le> length (trim u)" and "receipts (store (exec_ops xs w)) (trim u) = None"
    by (simp_all add: absent_ops)
  then show "fst (getPurchase u (exec_ops xs w)) = Lookup \<lparr>purchased = False, pv_orderId = None\<rparr>"
    by (simp add: getPurchase_def Let_def)
next
  assume "fst (doPurchase u w) = Some (Purchased (Some oid))"
  from purchased_receipt[OF this]
  have r: "receipts (store (snd (doPurchase u w))) (trim u) = Some oid" and n: "oid \<noteq> []"
    and v: "3 \<le> length (trim u)" by simp_all
  from keeps_ops[OF r n]
  have "receipts (store (exec_ops ys (snd (doPurchase u w)))) (trim u) = Some oid" .
  with n v show "fst (getPurchase u (exec_ops ys (snd (doPurchase u w))))
      = Lookup \<lparr>purchased = True, pv_orderId = Some oid\<rparr>"
    by (simp add: getPurchase_def Let_def)
qed

lemma trim_alice: "trim ''alice'' = ''alice''"
  by code_simp

lemma no_purchase_alice:
  "no_purchase_by ''alice'' [Reserve ''bob'', LookupOp ''alice'', StatusOp, Wait 100] w0"
  by code_simp

lemma lookup_in_sequence_example:
  "3 \<le> length (trim ''alice'') \<and> receipts (store w0) (trim ''alice'') = None
   \<and> no_purchase_by (trim ''alice'') [Reserve ''bob'', LookupOp ''alice'', StatusOp, Wait 100] w0
   \<and> fst (getPurchase ''alice'' (exec_ops [Reserve ''bob'', LookupOp ''alice'', StatusOp, Wait 100] w0))
       = Lookup \<lparr>purchased = False, pv_orderId = None\<rparr>
   \<and> fst (doPurchase ''alice'' w0) = Some (Purchased (Some ''1500:alice''))
   \<and> fst (getPurchase ''alice''
        (exec_ops [Wait 1000, Reserve ''alice'', Reserve ''carol'', LookupOp ''alice'']
           (snd (doPurchase ''alice'' w0))))
       = Lookup \<lparr>purchased = True, pv_orderId = Some ''1500:alice''\<rparr>"
proof -
  have a: "receipts (store w0) (trim ''alice'') = None"
    by (simp add: w0_def store0_def)
  have b: "no_purchase_by (trim ''alice'') [Reserve ''bob'', LookupOp ''alice'', StatusOp, Wait 100] w0"
    by (simp only: trim_alice no_purchase_alice)
  have c: "3 \<le> length (trim ''alice'')"
    by (simp add: trim_alice)
  note t = lookup_in_sequence[of "''alice''" w0
      "[Reserve ''bob'', LookupOp ''alice'', StatusOp, Wait 100]" "''1500:alice''"
      "[Wait 1000, Reserve ''alice'', Reserve ''carol'', LookupOp ''alice'']" cfg0 0]
  from t a b c doPurchase_alice show ?thesis by blast
qed

section \<open>Concurrent calls\<close>

lemma own_step:
  assumes "entered_ok w p" "stock (store w) = Some (IntStr k)"
  shows "entered_ok (snd (call_step (p, w))) (fst (call_step (p, w)))
       \<and> userId (fst (call_step (p, w))) = userId p
       \<and> conn (fst (call_step (p, w))) = conn p
       \<and> (\<exists>k'. stock (store (snd (call_step (p, w)))) = Some (IntStr k')
              \<and> k' + rsv (fst (call_step (p, w))) + pend (fst (call_step (p, w))) \<le> k + rsv p + pend p
              \<and> (rsv p < rsv (fst (call_step (p, w))) \<longrightarrow> 0 \<le> k'))
       \<and> rsv p \<le> rsv (fst (call_step (p, w)))"
  using assms
  by (cases "pc p")
     (auto simp: entered_ok_def rsv_def pend_def call_step_def step_defs Let_def
        split: prod.splits option.splits redis_str.splits if_splits)

lemma frame_receipts:
  assumes "pc p \<noteq> Start" "u \<noteq> userId p"
  shows "receipts (store (snd (call_step (p, w)))) u = receipts (store w) u"
  using assms
  by (cases "pc p")
     (auto simp: call_step_def step_defs doPurchase_call_def attemptPurchase_entry_def Let_def
        split: prod.splits option.splits redis_str.splits if_splits)

lemma other_step:
  assumes "entered_ok w q" "pc p \<noteq> Start" "userId q \<noteq> userId p"
  shows "entered_ok (snd (call_step (p, w))) q"
  using assms frame_receipts[of p "userId q" w]
  by (cases "pc q") (auto simp: entered_ok_def)

lemma sum_map_update:
  "i < length xs \<Longrightarrow>
     sum_list (map f (xs[i := y])) = sum_list (map f xs) - f (xs ! i) + (f y :: int)"
  by (induction xs arbitrary: i) (auto split: nat.splits)

lemma rsv_range: "0 \<le> rsv p \<and> rsv p \<le> 1"
  by (cases "pc p") (simp_all add: rsv_def)

lemma pend_range: "0 \<le> pend p \<and> pend p \<le> 1"
  by (simp add: pend_def)

lemma sum_pend_nonneg: "0 \<le> sum_list (map pend xs)"
  by (rule sum_list_nonneg) (auto simp: pend_range)

lemma sum_rsv_nonneg: "0 \<le> sum_list (map rsv xs)"
  by (rule sum_list_nonneg) (auto simp: rsv_range)

lemma length_fire [simp]: "length (calls (fire e s)) = length (calls s)"
  by (cases e) (auto split: prod.splits)

lemma length_exec_sched [simp]: "length (calls (exec_sched es s)) = length (calls s)"
  unfolding exec_sched_def by (induction es arbitrary: s) simp_all

lemma entered_ok_clock [simp]: "entered_ok (w\<lparr>clock := t\<rparr>) p = entered_ok w p"
  by (cases "pc p") (simp_all add: entered_ok_def)

lemma gen_inv_run:
  assumes inv: "gen_inv S s" and i: "i < length (calls s)"
  shows "gen_inv S (fire (Run i) s)"
proof -
  let ?p = "calls s ! i"
  let ?w = "env s"
  obtain p' w' where st: "call_step (?p, ?w) = (p', w')" by (cases "call_step (?p, ?w)")
  from inv obtain k where k: "stock (store ?w) = Some (IntStr k)"
    and sum: "k + sum_list (map rsv (calls s)) + sum_list (map pend (calls s)) \<le> S"
    and R: "sum_list (map rsv (calls s)) \<le> S"
    and ok: "\<forall>p\<in>set (calls s). entered_ok ?w p"
    and dist: "distinct (map userId (calls s))"
    by (auto simp: gen_inv_def)
  from ok i have okp: "entered_ok ?w ?p" by simp
  from own_step[OF okp k] st obtain k' where
    ok': "entered_ok w' p'" and uid: "userId p' = userId ?p"
    and k': "stock (store w') = Some (IntStr k')"
    and le: "k' + rsv p' + pend p' \<le> k + rsv ?p + pend ?p"
    and pos: "rsv ?p < rsv p' \<longrightarrow> 0 \<le> k'"
    and mono: "rsv ?p \<le> rsv p'"
    by auto
  have fire: "fire (Run i) s = \<lparr>env = w', calls = (calls s)[i := p']\<rparr>"
    using i st by simp
  have sr: "sum_list (map rsv ((calls s)[i := p'])) = sum_list (map rsv (calls s)) - rsv ?p + rsv p'"
    using i by (rule sum_map_update)
  have sp: "sum_list (map pend ((calls s)[i := p'])) = sum_list (map pend (calls s)) - pend ?p + pend p'"
    using i by (rule sum_map_update)
  have sum': "k' + sum_list (map rsv ((calls s)[i := p'])) + sum_list (map pend ((calls s)[i := p'])) \<le> S"
    using sum le sr sp by simp
  have R': "sum_list (map rsv ((calls s)[i := p'])) \<le> S"
  proof (cases "rsv ?p < rsv p'")
    case True
    with pos have "0 \<le> k'" by simp
    with sum' sum_pend_nonneg[of "(calls s)[i := p']"] show ?thesis by simp
  next
    case False
    with mono have "rsv p' = rsv ?p" by simp
    with sr R show ?thesis by simp
  qed
  have nstart: "pc ?p \<noteq> Start" using okp by (auto simp: entered_ok_def)
  have others: "entered_ok w' q" if q: "q \<in> set ((calls s)[i := p'])" for q
  proof -
    from q obtain j where j: "j < length (calls s)" and qj: "q = (calls s)[i := p'] ! j"
      by (auto simp: in_set_conv_nth)
    show ?thesis
    proof (cases "j = i")
      case True
      with qj j ok' show ?thesis by simp
    next
      case False
      with qj j have q': "q = calls s ! j" by simp
      from dist i j False have "userId (calls s ! j) \<noteq> userId ?p"
        by (auto simp: distinct_conv_nth)
      moreover from ok j have "entered_ok ?w (calls s ! j)" by simp
      ultimately have "entered_ok (snd (call_step (?p, ?w))) (calls s ! j)"
        using nstart by (intro other_step)
      with st q' show ?thesis by simp
    qed
  qed
  have "(map userId (calls s))[i := userId (calls s ! i)] = map userId (calls s)"
    using i by (simp add: list_update_same_conv)
  then have dist': "distinct (map userId ((calls s)[i := p']))"
    using dist uid by (simp add: map_update)
  show ?thesis
    unfolding gen_inv_def fire using k' sum' R' others dist' by auto
qed

lemma gen_inv_fire: "gen_inv S s \<Longrightarrow> gen_inv S (fire e s)"
proof (cases e)
  case (Run i)
  assume "gen_inv S s"
  then show ?thesis using Run gen_inv_run[of S s i] by (cases "i < length (calls s)") simp_all
next
  case (Tick d)
  assume "gen_inv S s"
  then show ?thesis using Tick by (simp add: gen_inv_def)
qed

lemma gen_inv_sched: "gen_inv S s \<Longrightarrow> gen_inv S (exec_sched es s)"
  unfolding exec_sched_def
proof (induction es arbitrary: s)
  case Nil
  then show ?case by simp
next
  case (Cons e es)
  from Cons.prems have "gen_inv S (fire e s)" by (rule gen_inv_fire)
  then have "gen_inv S (fold fire es (fire e s))" by (rule Cons.IH)
  then show ?case by simp
qed

lemma own_iso:
  assumes "entered_ok w p" "iso_ok w p" "stock (store w) = Some (IntStr k)"
  shows "iso_ok (snd (call_step (p, w))) (fst (call_step (p, w)))
       \<and> (\<exists>k'. stock (store (snd (call_step (p, w)))) = Some (IntStr k')
              \<and> k' + rsv (fst (call_step (p, w))) = k + rsv p)
       \<and> (is_sold_out (fst (call_step (p, w))) \<and> \<not> is_sold_out p \<longrightarrow> k \<le> 0)"
  using assms
  by (cases "pc p")
     (auto simp: entered_ok_def iso_ok_def rsv_def is_sold_out_def decr_safe_def call_step_def step_defs
        Let_def touch_def Number_or_zero_def js_le_def
        split: prod.splits option.splits redis_str.splits if_splits)

lemma other_iso:
  assumes "iso_ok w q" "iso_ok w p" "entered_ok w p" "conn q \<noteq> conn p"
  shows "iso_ok (snd (call_step (p, w))) q"
  using assms
  by (cases "pc p")
     (auto simp: entered_ok_def iso_ok_def decr_safe_def call_step_def step_defs
        Let_def touch_def
        split: prod.splits option.splits redis_str.splits if_splits)

lemma iso_ok_clock [simp]: "iso_ok (w\<lparr>clock := t\<rparr>) p = iso_ok w p"
  by (simp add: iso_ok_def)

lemma iso_inv_run:
  assumes inv: "iso_inv S s" and i: "i < length (calls s)"
  shows "iso_inv S (fire (Run i) s)"
proof -
  let ?p = "calls s ! i"
  let ?w = "env s"
  obtain p' w' where st: "call_step (?p, ?w) = (p', w')" by (cases "call_step (?p, ?w)")
  from inv have gen: "gen_inv S s"
    and iso: "\<forall>p\<in>set (calls s). iso_ok ?w p"
    and dist: "distinct (map conn (calls s))"
    and is_sold_out: "(\<exists>p\<in>set (calls s). is_sold_out p) \<longrightarrow> sum_list (map rsv (calls s)) = S"
    by (auto simp: iso_inv_def)
  from inv obtain k where k: "stock (store ?w) = Some (IntStr k)"
    and kS: "k + sum_list (map rsv (calls s)) = S"
    by (auto simp: iso_inv_def)
  from gen have ok: "\<forall>p\<in>set (calls s). entered_ok ?w p" and R: "sum_list (map rsv (calls s)) \<le> S"
    by (auto simp: gen_inv_def)
  from ok iso i have okp: "entered_ok ?w ?p" and isop: "iso_ok ?w ?p" by simp_all
  have gen': "gen_inv S (fire (Run i) s)" using gen i by (rule gen_inv_run)
  then have R': "sum_list (map rsv (calls (fire (Run i) s))) \<le> S" by (simp add: gen_inv_def)
  from own_step[OF okp k] st have cn: "conn p' = conn ?p" and mono: "rsv ?p \<le> rsv p'" by auto
  from own_iso[OF okp isop k] st obtain k' where
    iso': "iso_ok w' p'" and k': "stock (store w') = Some (IntStr k')"
    and eq: "k' + rsv p' = k + rsv ?p"
    and new: "is_sold_out p' \<and> \<not> is_sold_out ?p \<longrightarrow> k \<le> 0"
    by auto
  have fire: "fire (Run i) s = \<lparr>env = w', calls = (calls s)[i := p']\<rparr>"
    using i st by simp
  have sr: "sum_list (map rsv ((calls s)[i := p'])) = sum_list (map rsv (calls s)) - rsv ?p + rsv p'"
    using i by (rule sum_map_update)
  have kS': "k' + sum_list (map rsv ((calls s)[i := p'])) = S"
    using kS eq sr by simp
  have others: "iso_ok w' q" if q: "q \<in> set ((calls s)[i := p'])" for q
  proof -
    from q obtain j where j: "j < length (calls s)" and qj: "q = (calls s)[i := p'] ! j"
      by (auto simp: in_set_conv_nth)
    show ?thesis
    proof (cases "j = i")
      case True
      with qj j iso' show ?thesis by simp
    next
      case False
      with qj j have q': "q = calls s ! j" by simp
      from dist i j False have "conn (calls s ! j) \<noteq> conn ?p"
        by (auto simp: distinct_conv_nth)
      moreover from iso j have "iso_ok ?w (calls s ! j)" by simp
      ultimately have "iso_ok (snd (call_step (?p, ?w))) (calls s ! j)"
        using isop okp by (intro other_iso)
      with st q' show ?thesis by simp
    qed
  qed
  have "(map conn (calls s))[i := conn (calls s ! i)] = map conn (calls s)"
    using i by (simp add: list_update_same_conv)
  then have dist': "distinct (map conn ((calls s)[i := p']))"
    using dist cn by (simp add: map_update)
  have is_sold_out': "sum_list (map rsv ((calls s)[i := p'])) = S"
    if ex: "\<exists>q\<in>set ((calls s)[i := p']). is_sold_out q"
  proof -
    have old: "sum_list (map rsv (calls s)) = S \<Longrightarrow> ?thesis"
      using sr mono R' fire by simp
    from ex obtain q where q: "q \<in> set ((calls s)[i := p'])" and sq: "is_sold_out q" by blast
    from q have "q = p' \<or> q \<in> set (calls s)"
      using set_update_subset_insert[of "calls s" i p'] by auto
    then show ?thesis
    proof
      assume "q \<in> set (calls s)"
      with sq is_sold_out have "sum_list (map rsv (calls s)) = S" by blast
      then show ?thesis by (rule old)
    next
      assume qp: "q = p'"
      show ?thesis
      proof (cases "is_sold_out ?p")
        case True
        moreover from i have "calls s ! i \<in> set (calls s)" by simp
        ultimately have "sum_list (map rsv (calls s)) = S" using is_sold_out by blast
        then show ?thesis by (rule old)
      next
        case False
        with new sq qp have "k \<le> 0" by simp
        with kS R have "sum_list (map rsv (calls s)) = S" by simp
        then show ?thesis by (rule old)
      qed
    qed
  qed
  show ?thesis
    unfolding iso_inv_def using gen'
    unfolding fire using k' kS' others dist' is_sold_out' by auto
qed

lemma iso_inv_fire: "iso_inv S s \<Longrightarrow> iso_inv S (fire e s)"
proof (cases e)
  case (Run i)
  assume "iso_inv S s"
  then show ?thesis using Run iso_inv_run[of S s i] by (cases "i < length (calls s)") simp_all
next
  case (Tick d)
  assume a: "iso_inv S s"
  with Tick show ?thesis by (simp add: iso_inv_def gen_inv_def)
qed

lemma iso_inv_sched: "iso_inv S s \<Longrightarrow> iso_inv S (exec_sched es s)"
  unfolding exec_sched_def
proof (induction es arbitrary: s)
  case Nil
  then show ?case by simp
next
  case (Cons e es)
  from Cons.prems have "iso_inv S (fire e s)" by (rule iso_inv_fire)
  then have "iso_inv S (fold fire es (fire e s))" by (rule Cons.IH)
  then show ?case by simp
qed

lemma sum_rsv_count: "sum_list (map rsv xs) = int (length (filter (returned 0) xs))"
  by (induction xs) (auto simp: rsv_def returned_def split: label.splits)

lemma sum_zero: "(\<And>x. x \<in> set xs \<Longrightarrow> f x = (0::int)) \<Longrightarrow> sum_list (map f xs) = 0"
  by (induction xs) simp_all

lemma filter_split:
  "(\<And>x. x \<in> set xs \<Longrightarrow> P x \<noteq> Q x) \<Longrightarrow> length (filter P xs) + length (filter Q xs) = length xs"
  by (induction xs) auto

lemma fresh_gen_inv:
  assumes "stock (store (env s)) = Some (IntStr S)" and "0 \<le> S"
    and "\<forall>p\<in>set (calls s). pc p = Loop \<and> tries p = 0
           \<and> \<not> window_closed (now p) (startsAt p) (endsAt p)
           \<and> receipts (store (env s)) (userId p) = None"
    and "distinct (map userId (calls s))"
  shows "gen_inv S s"
proof -
  have "sum_list (map rsv (calls s)) = 0"
    using assms(3) by (intro sum_zero) (simp add: rsv_def)
  moreover have "sum_list (map pend (calls s)) = 0"
    using assms(3) by (intro sum_zero) (simp add: pend_def)
  moreover have "\<forall>p\<in>set (calls s). entered_ok (env s) p"
    using assms(3) by (simp add: entered_ok_def)
  ultimately show ?thesis using assms(1,2,4) by (simp add: gen_inv_def)
qed

lemma fresh_iso_inv:
  assumes "stock (store (env s)) = Some (IntStr S)" and "0 \<le> S"
    and "\<forall>p\<in>set (calls s). pc p = Loop \<and> tries p = 0
           \<and> \<not> window_closed (now p) (startsAt p) (endsAt p)
           \<and> receipts (store (env s)) (userId p) = None"
    and "distinct (map userId (calls s))"
    and "distinct (map conn (calls s))"
    and "\<forall>p\<in>set (calls s). conn p < length (sessions (env s))"
  shows "iso_inv S s"
proof -
  have "sum_list (map rsv (calls s)) = 0"
    using assms(3) by (intro sum_zero) (simp add: rsv_def)
  moreover have "\<forall>p\<in>set (calls s). iso_ok (env s) p \<and> \<not> is_sold_out p"
    using assms(3,6) by (simp add: iso_ok_def is_sold_out_def)
  ultimately show ?thesis
    using fresh_gen_inv[OF assms(1-4)] assms(1,5) by (auto simp: iso_inv_def)
qed

lemma gen_inv_outcome:
  assumes "gen_inv S s"
  shows "(\<forall>p\<in>set (calls s). \<forall>r. pc p = Done r \<longrightarrow> code r = 0 \<or> code r = 2 \<or> code r = 4)
       \<and> int (count_code 0 s) \<le> min S (int (length (calls s)))
       \<and> (\<exists>k. stock (store (env s)) = Some (IntStr k) \<and> k \<le> S - int (count_code 0 s))"
proof -
  from assms obtain k where k: "stock (store (env s)) = Some (IntStr k)"
    and sum: "k + sum_list (map rsv (calls s)) + sum_list (map pend (calls s)) \<le> S"
    and R: "sum_list (map rsv (calls s)) \<le> S"
    and ok: "\<forall>p\<in>set (calls s). entered_ok (env s) p"
    by (auto simp: gen_inv_def)
  have c: "sum_list (map rsv (calls s)) = int (count_code 0 s)"
    by (simp add: sum_rsv_count count_code_def)
  have "count_code 0 s \<le> length (calls s)" by (simp add: count_code_def)
  with R c have "int (count_code 0 s) \<le> min S (int (length (calls s)))" by simp
  moreover from sum c sum_pend_nonneg[of "calls s"] have "k \<le> S - int (count_code 0 s)" by simp
  moreover from ok have "\<forall>p\<in>set (calls s). \<forall>r. pc p = Done r \<longrightarrow> code r = 0 \<or> code r = 2 \<or> code r = 4"
    by (auto simp: entered_ok_def)
  ultimately show ?thesis using k by simp
qed

lemma iso_inv_outcome:
  assumes "iso_inv S s"
  shows "stock (store (env s)) = Some (IntStr (S - int (count_code 0 s)))
       \<and> ((\<forall>p\<in>set (calls s). final (pc p)) \<and> count_code 4 s = 0 \<longrightarrow>
            int (count_code 0 s) = min S (int (length (calls s)))
            \<and> count_code 2 s = length (calls s) - count_code 0 s
            \<and> stock (store (env s))
                = Some (IntStr (if S \<le> int (length (calls s)) then 0 else S - int (length (calls s)))))"
proof -
  from assms have gen: "gen_inv S s"
    and is_sold_out: "(\<exists>p\<in>set (calls s). is_sold_out p) \<longrightarrow> sum_list (map rsv (calls s)) = S"
    by (auto simp: iso_inv_def)
  from assms obtain k where k: "stock (store (env s)) = Some (IntStr k)"
    and kS: "k + sum_list (map rsv (calls s)) = S"
    by (auto simp: iso_inv_def)
  from gen have ok: "\<forall>p\<in>set (calls s). entered_ok (env s) p" and R: "sum_list (map rsv (calls s)) \<le> S"
    by (auto simp: gen_inv_def)
  have c: "sum_list (map rsv (calls s)) = int (count_code 0 s)"
    by (simp add: sum_rsv_count count_code_def)
  have st: "stock (store (env s)) = Some (IntStr (S - int (count_code 0 s)))"
    using k kS c by simp
  have le: "count_code 0 s \<le> length (calls s)" by (simp add: count_code_def)
  { assume fin: "\<forall>p\<in>set (calls s). final (pc p)" and nb: "count_code 4 s = 0"
    have two: "returned 0 p \<noteq> returned 2 p" if p: "p \<in> set (calls s)" for p
    proof -
      from nb p have n4: "\<not> returned 4 p" by (auto simp: count_code_def filter_empty_conv)
      from ok p have "entered_ok (env s) p" by simp
      with fin p n4 show ?thesis
        by (cases "pc p") (auto simp: entered_ok_def returned_def)
    qed
    then have split: "count_code 0 s + count_code 2 s = length (calls s)"
      unfolding count_code_def by (rule filter_split)
    have "int (count_code 0 s) = min S (int (length (calls s)))"
    proof (cases "count_code 2 s = 0")
      case True
      with split have "count_code 0 s = length (calls s)" by simp
      with R c show ?thesis by simp
    next
      case False
      then obtain p where p: "p \<in> set (calls s)" and r2: "returned 2 p"
        by (auto simp: count_code_def filter_empty_conv)
      then have "is_sold_out p" by (cases "pc p") (auto simp: returned_def is_sold_out_def)
      with p is_sold_out c have "int (count_code 0 s) = S" by auto
      with le show ?thesis by simp
    qed
    with split st have "int (count_code 0 s) = min S (int (length (calls s)))
      \<and> count_code 2 s = length (calls s) - count_code 0 s
      \<and> stock (store (env s))
          = Some (IntStr (if S \<le> int (length (calls s)) then 0 else S - int (length (calls s))))"
      by (auto simp: min_def split: if_splits) }
  with st show ?thesis by blast
qed

text \<open>
  C1 (no oversell), as amended. \<open>N\<close> calls for distinct buyers without receipts have
  entered \<^verbatim>\<open>attemptPurchase\<close> inside the window, against an integer stock \<open>S \<ge> 0\<close>. Under every
  schedule and whatever connections the calls were given: a call that has returned has
  returned code 0 (reserved), 2 (sold out) or 4 (busy); at most \<open>min S N\<close> calls have reserved;
  the stock counter is at most \<open>S\<close> minus the number of reservations. When every call has a
  connection of the pool to itself, the stock counter is exactly \<open>S\<close> minus the number of
  reservations made so far; and when moreover all calls have returned and none is busy,
  exactly \<open>min S N\<close> are reserved, the others are sold out, and the counter is 0 when
  \<open>S \<le> N\<close> and \<open>S - N\<close> otherwise.
\<close>

theorem no_oversell:
  assumes "stock (store (env s)) = Some (IntStr S)" and "0 \<le> S"
    and "\<forall>p\<in>set (calls s). pc p = Loop \<and> tries p = 0
           \<and> \<not> window_closed (now p) (startsAt p) (endsAt p)
           \<and> receipts (store (env s)) (userId p) = None"
    and "distinct (map userId (calls s))"
  shows "(\<forall>p\<in>set (calls (exec_sched es s)). \<forall>r. pc p = Done r
            \<longrightarrow> code r = 0 \<or> code r = 2 \<or> code r = 4)
       \<and> int (count_code 0 (exec_sched es s)) \<le> min S (int (length (calls s)))
       \<and> (\<exists>k. stock (store (env (exec_sched es s))) = Some (IntStr k)
              \<and> k \<le> S - int (count_code 0 (exec_sched es s)))
       \<and> (distinct (map conn (calls s))
            \<and> (\<forall>p\<in>set (calls s). conn p < length (sessions (env s))) \<longrightarrow>
            stock (store (env (exec_sched es s)))
              = Some (IntStr (S - int (count_code 0 (exec_sched es s))))
            \<and> ((\<forall>p\<in>set (calls (exec_sched es s)). final (pc p))
                 \<and> count_code 4 (exec_sched es s) = 0 \<longrightarrow>
                 int (count_code 0 (exec_sched es s)) = min S (int (length (calls s)))
                 \<and> count_code 2 (exec_sched es s)
                     = length (calls s) - count_code 0 (exec_sched es s)
                 \<and> stock (store (env (exec_sched es s)))
                     = Some (IntStr (if S \<le> int (length (calls s)) then 0
                                     else S - int (length (calls s))))))"
proof -
  have "gen_inv S (exec_sched es s)"
    using fresh_gen_inv[OF assms] by (rule gen_inv_sched)
  from gen_inv_outcome[OF this] have g: "(\<forall>p\<in>set (calls (exec_sched es s)). \<forall>r. pc p = Done r
            \<longrightarrow> code r = 0 \<or> code r = 2 \<or> code r = 4)
       \<and> int (count_code 0 (exec_sched es s)) \<le> min S (int (length (calls s)))
       \<and> (\<exists>k. stock (store (env (exec_sched es s))) = Some (IntStr k)
              \<and> k \<le> S - int (count_code 0 (exec_sched es s)))"
    by simp
  { assume "distinct (map conn (calls s))
            \<and> (\<forall>p\<in>set (calls s). conn p < length (sessions (env s)))"
    with assms have "iso_inv S s" by (intro fresh_iso_inv) simp_all
    then have "iso_inv S (exec_sched es s)" by (rule iso_inv_sched)
    from iso_inv_outcome[OF this] have "stock (store (env (exec_sched es s)))
              = Some (IntStr (S - int (count_code 0 (exec_sched es s))))
            \<and> ((\<forall>p\<in>set (calls (exec_sched es s)). final (pc p))
                 \<and> count_code 4 (exec_sched es s) = 0 \<longrightarrow>
                 int (count_code 0 (exec_sched es s)) = min S (int (length (calls s)))
                 \<and> count_code 2 (exec_sched es s)
                     = length (calls s) - count_code 0 (exec_sched es s)
                 \<and> stock (store (env (exec_sched es s)))
                     = Some (IntStr (if S \<le> int (length (calls s)) then 0
                                     else S - int (length (calls s)))))"
      by simp }
  with g show ?thesis by blast
qed

subsection \<open>Evaluating schedules\<close>

lemma upd_Cons: "(x # xs)[i := v] = (if i = 0 then v # xs else x # xs[i - 1 := v])"
  by (cases i) simp_all

lemma replicate_8: "replicate 8 x = [x, x, x, x, x, x, x, x]"
  by (simp add: eval_nat_numeral)

lemmas eval_defs = exec_sched_def w0_def store0_def
  cfg0_def new_call_def call_step_def doPurchase_entry_def doPurchase_call_def
  attemptPurchase_entry_def loop_head_def mget_checks_def exec_purchase_def exec_rollback_def
  multi_exec_def purchase_block_def rollback_block_def DECR_stock_def INCR_stock_def
  SET_user_def DEL_user_def LPUSH_orders_def touch_def WATCH_def UNWATCH_def window_closed_def
  js_gt_def js_le_def Number_or_zero_def MAX_RETRIES_def trim_def is_space_def fresh_session_def
  Let_def upd_Cons replicate_8 order_id_def show_1500

lemma count_code_outcome:
  "count_code c s = length (filter (\<lambda>l. case l of Done r \<Rightarrow> code r = c | _ \<Rightarrow> False) (fst (outcome s)))"
  by (simp add: count_code_def outcome_def returned_def[abs_def] filter_map o_def)

lemma final_outcome:
  "list_all (\<lambda>p. final (pc p)) (calls s) = list_all final (fst (outcome s))"
  by (simp add: outcome_def list_all_iff)

lemma starved_10:
  "outcome (exec_sched starved (six_buyers 10)) =
     ([Done \<lparr>code = 0, orderId = Some ''1500:buyer0'', reason = None\<rparr>,
       Done \<lparr>code = 0, orderId = Some ''1500:buyer1'', reason = None\<rparr>,
       Done \<lparr>code = 0, orderId = Some ''1500:buyer2'', reason = None\<rparr>,
       Done \<lparr>code = 0, orderId = Some ''1500:buyer3'', reason = None\<rparr>,
       Done \<lparr>code = 0, orderId = Some ''1500:buyer4'', reason = None\<rparr>,
       Done \<lparr>code = 4, orderId = None, reason = Some ''contention''\<rparr>], Some (IntStr 5))"
  by (simp add: outcome_def eval_defs six_buyers_def starved_def lose_to_def)

lemma starved_5:
  "outcome (exec_sched starved (six_buyers 5)) =
     ([Done \<lparr>code = 0, orderId = Some ''1500:buyer0'', reason = None\<rparr>,
       Done \<lparr>code = 0, orderId = Some ''1500:buyer1'', reason = None\<rparr>,
       Done \<lparr>code = 0, orderId = Some ''1500:buyer2'', reason = None\<rparr>,
       Done \<lparr>code = 0, orderId = Some ''1500:buyer3'', reason = None\<rparr>,
       Done \<lparr>code = 0, orderId = Some ''1500:buyer4'', reason = None\<rparr>,
       Done \<lparr>code = 4, orderId = None, reason = Some ''contention''\<rparr>], Some (IntStr 0))"
  by (simp add: outcome_def eval_defs six_buyers_def starved_def lose_to_def)

text \<open>
  The claim as first stated fails when a call runs out of retries. With stock 10 and six
  buyers, schedule \<open>starved\<close> ends with five calls reserved and one busy, and the counter at
  5, not 4. With stock 5 the same schedule ends with five reserved, none sold out and one
  busy.
\<close>

theorem no_oversell_counterexample:
  "list_all (\<lambda>p. final (pc p)) (calls (exec_sched starved (six_buyers 10)))
   \<and> count_code 0 (exec_sched starved (six_buyers 10)) = 5
   \<and> count_code 2 (exec_sched starved (six_buyers 10)) = 0
   \<and> count_code 4 (exec_sched starved (six_buyers 10)) = 1
   \<and> stock (store (env (exec_sched starved (six_buyers 10)))) = Some (IntStr 5)
   \<and> int (count_code 0 (exec_sched starved (six_buyers 10))) \<noteq> min 10 (int (length (calls (six_buyers 10))))
   \<and> list_all (\<lambda>p. final (pc p)) (calls (exec_sched starved (six_buyers 5)))
   \<and> count_code 0 (exec_sched starved (six_buyers 5)) = 5
   \<and> count_code 2 (exec_sched starved (six_buyers 5)) = 0
   \<and> count_code 4 (exec_sched starved (six_buyers 5)) = 1
   \<and> stock (store (env (exec_sched starved (six_buyers 5)))) = Some (IntStr 0)"
proof -
  have a: "stock (store (env (exec_sched starved (six_buyers 10)))) = snd (outcome (exec_sched starved (six_buyers 10)))"
    and b: "stock (store (env (exec_sched starved (six_buyers 5)))) = snd (outcome (exec_sched starved (six_buyers 5)))"
    by (simp_all add: outcome_def)
  have n: "length (calls (six_buyers 10)) = 6" by (simp add: six_buyers_def)
  show ?thesis
    unfolding a b n count_code_outcome final_outcome starved_10 starved_5 by simp
qed

lemma in_turn_outcome:
  "outcome (exec_sched in_turn three_calls) =
     ([Done \<lparr>code = 0, orderId = Some ''1500:alice'', reason = None\<rparr>,
       Done \<lparr>code = 0, orderId = Some ''1500:bob'', reason = None\<rparr>,
       Done \<lparr>code = 2, orderId = None, reason = None\<rparr>], Some (IntStr 0))"
  by (simp add: outcome_def eval_defs three_calls_def in_turn_def attempt_def)

theorem no_oversell_witness:
  "stock (store (env three_calls)) = Some (IntStr 2) \<and> (0::int) \<le> 2
   \<and> list_all (\<lambda>p. pc p = Loop \<and> tries p = 0
         \<and> \<not> window_closed (now p) (startsAt p) (endsAt p)
         \<and> receipts (store (env three_calls)) (userId p) = None) (calls three_calls)
   \<and> distinct (map userId (calls three_calls))
   \<and> distinct (map conn (calls three_calls))
   \<and> list_all (\<lambda>p. conn p < length (sessions (env three_calls))) (calls three_calls)
   \<and> list_all (\<lambda>p. final (pc p)) (calls (exec_sched in_turn three_calls))
   \<and> count_code 4 (exec_sched in_turn three_calls) = 0
   \<and> count_code 0 (exec_sched in_turn three_calls) = 2
   \<and> count_code 2 (exec_sched in_turn three_calls) = 1
   \<and> stock (store (env (exec_sched in_turn three_calls))) = Some (IntStr 0)"
proof -
  have h: "stock (store (env three_calls)) = Some (IntStr 2)"
    "\<forall>p\<in>set (calls three_calls). pc p = Loop \<and> tries p = 0
         \<and> \<not> window_closed (now p) (startsAt p) (endsAt p)
         \<and> receipts (store (env three_calls)) (userId p) = None"
    "distinct (map userId (calls three_calls))"
    "distinct (map conn (calls three_calls))"
    "\<forall>p\<in>set (calls three_calls). conn p < length (sessions (env three_calls))"
    by (simp_all add: three_calls_def attempt_def w0_def store0_def window_closed_def js_gt_def)
  have f: "\<forall>p\<in>set (calls (exec_sched in_turn three_calls)). final (pc p)"
    "count_code 4 (exec_sched in_turn three_calls) = 0"
    using final_outcome[of "exec_sched in_turn three_calls"]
    by (simp_all add: count_code_outcome in_turn_outcome list_all_iff)
  have n: "length (calls three_calls) = 3" by (simp add: three_calls_def)
  from no_oversell[OF h(1) _ h(2) h(3), of in_turn] h(4,5) f n
  have "int (count_code 0 (exec_sched in_turn three_calls)) = 2"
    and "count_code 2 (exec_sched in_turn three_calls) = 3 - count_code 0 (exec_sched in_turn three_calls)"
    and "stock (store (env (exec_sched in_turn three_calls))) = Some (IntStr 0)"
    by simp_all
  with h f show ?thesis by (simp add: list_all_iff)
qed

section \<open>The window check across retries\<close>

lemma call_step_keeps_args:
  assumes "pc p \<noteq> Start" "pc p \<noteq> Enter"
  shows "now (fst (call_step (p, w))) = now p
       \<and> startsAt (fst (call_step (p, w))) = startsAt p
       \<and> endsAt (fst (call_step (p, w))) = endsAt p
       \<and> pc (fst (call_step (p, w))) \<noteq> Start \<and> pc (fst (call_step (p, w))) \<noteq> Enter"
  using assms
  by (cases "pc p")
     (auto simp: call_step_def step_defs Let_def split: prod.splits option.splits)

lemma fire_keeps_args:
  assumes "i < length (calls s)" "pc (calls s ! i) \<noteq> Start" "pc (calls s ! i) \<noteq> Enter"
  shows "now (calls (fire e s) ! i) = now (calls s ! i)
       \<and> startsAt (calls (fire e s) ! i) = startsAt (calls s ! i)
       \<and> endsAt (calls (fire e s) ! i) = endsAt (calls s ! i)
       \<and> pc (calls (fire e s) ! i) \<noteq> Start \<and> pc (calls (fire e s) ! i) \<noteq> Enter"
proof (cases e)
  case (Run j)
  show ?thesis
  proof (cases "j = i")
    case True
    with Run assms call_step_keeps_args[OF assms(2,3), of "env s"] show ?thesis
      by (simp add: split_beta)
  next
    case False
    with Run assms show ?thesis by (simp add: split_beta)
  qed
next
  case (Tick d)
  with assms show ?thesis by simp
qed

lemma sched_keeps_args:
  assumes "i < length (calls s)" "pc (calls s ! i) \<noteq> Start" "pc (calls s ! i) \<noteq> Enter"
  shows "now (calls (exec_sched es s) ! i) = now (calls s ! i)
       \<and> startsAt (calls (exec_sched es s) ! i) = startsAt (calls s ! i)
       \<and> endsAt (calls (exec_sched es s) ! i) = endsAt (calls s ! i)"
  using assms unfolding exec_sched_def
proof (induction es arbitrary: s)
  case Nil
  then show ?case by simp
next
  case (Cons e es)
  from fire_keeps_args[OF Cons.prems, of e]
  have k: "now (calls (fire e s) ! i) = now (calls s ! i)"
    "startsAt (calls (fire e s) ! i) = startsAt (calls s ! i)"
    "endsAt (calls (fire e s) ! i) = endsAt (calls s ! i)"
    "pc (calls (fire e s) ! i) \<noteq> Start" "pc (calls (fire e s) ! i) \<noteq> Enter"
    by simp_all
  from Cons.prems(1) have "i < length (calls (fire e s))" by simp
  from Cons.IH[OF this k(4,5)] k(1-3) show ?case by simp
qed

text \<open>
  C4 (window check on retries), as amended. The window check runs on every attempt of the
  retry loop, but on the \<open>now\<close>, \<open>startsAt\<close> and \<open>endsAt\<close> that \<^verbatim>\<open>doPurchase\<close> read once before the
  loop: whatever the other calls and the clock do in between, a call that has entered
  \<^verbatim>\<open>attemptPurchase\<close> keeps these three values, and each attempt goes on to MGET or to the
  return of code 3 according to them alone.
\<close>

theorem window_check_cached:
  assumes "i < length (calls s)" and "pc (calls s ! i) \<noteq> Start" and "pc (calls s ! i) \<noteq> Enter"
  shows "now (calls (exec_sched es s) ! i) = now (calls s ! i)
       \<and> startsAt (calls (exec_sched es s) ! i) = startsAt (calls s ! i)
       \<and> endsAt (calls (exec_sched es s) ! i) = endsAt (calls s ! i)
       \<and> (pc (calls (exec_sched es s) ! i) = Loop \<and> tries (calls (exec_sched es s) ! i) < MAX_RETRIES
            \<longrightarrow> pc (calls (fire (Run i) (exec_sched es s)) ! i)
                = (if js_lt (Fin (of_int (now (calls s ! i)))) (startsAt (calls s ! i))
                      \<or> js_gt (Fin (of_int (now (calls s ! i)))) (endsAt (calls s ! i))
                   then Unwatch \<lparr>code = 3, orderId = None, reason = None\<rparr> else Mget))"
proof -
  note k = sched_keeps_args[OF assms, of es]
  have len: "i < length (calls (exec_sched es s))" using assms(1) by simp
  show ?thesis using k len
    by (auto simp: call_step_def loop_head_def window_closed_def split_beta)
qed

lemmas c4_defs = eval_defs sys0_def closes_mid_retry_def lost_race_def alice_entered_def

lemma lost_race_state:
  "calls (exec_sched lost_race alice_entered) ! 0
     = \<lparr>userId = ''alice'', now = 1500, startsAt = Fin 1000, endsAt = Fin 2000, conn = 0,
        tries = 1, pc = Loop\<rparr>
   \<and> clock (env (exec_sched lost_race alice_entered)) = 6500
   \<and> config (store (env (exec_sched lost_race alice_entered))) = cfg0"
  by (simp add: c4_defs)

lemma closes_mid_retry_eq: "exec_sched closes_mid_retry sys0 = exec_sched lost_race alice_entered"
  by (simp add: closes_mid_retry_def alice_entered_def exec_sched_def)

lemma after_close:
  "pc (calls (exec_sched (closes_mid_retry @ [Run 0]) sys0) ! 0) = Mget
   \<and> pc (calls (exec_sched (closes_mid_retry @ [Run 0, Run 0, Run 0]) sys0) ! 0)
       = Done \<lparr>code = 0, orderId = Some ''1500:alice'', reason = None\<rparr>"
  by (simp add: c4_defs)

text \<open>
  The claim as first stated has the later attempt see the sale closed. After schedule
  \<open>closes_mid_retry\<close> the first request is about to make its second attempt, the clock reads
  6500 and the sale ended at 2000; the attempt passes the window check all the same and the
  call returns code 0.
\<close>

theorem window_recheck_counterexample:
  "pc (calls (exec_sched closes_mid_retry sys0) ! 0) = Loop
   \<and> tries (calls (exec_sched closes_mid_retry sys0) ! 0) = 1
   \<and> window_closed_now (env (exec_sched closes_mid_retry sys0))
   \<and> pc (calls (exec_sched (closes_mid_retry @ [Run 0]) sys0) ! 0) = Mget
   \<and> pc (calls (exec_sched (closes_mid_retry @ [Run 0, Run 0, Run 0]) sys0) ! 0)
       = Done \<lparr>code = 0, orderId = Some ''1500:alice'', reason = None\<rparr>"
  using lost_race_state after_close
  by (simp add: closes_mid_retry_eq window_closed_now_def window_closed_def cfg0_def js_gt_def)

lemma alice_entered_state:
  "0 < length (calls alice_entered)
   \<and> calls alice_entered ! 0
     = \<lparr>userId = ''alice'', now = 1500, startsAt = Fin 1000, endsAt = Fin 2000, conn = 0,
        tries = 0, pc = Loop\<rparr>"
  by (simp add: c4_defs)

theorem window_check_cached_witness:
  "0 < length (calls alice_entered) \<and> pc (calls alice_entered ! 0) = Loop
   \<and> now (calls (exec_sched lost_race alice_entered) ! 0) = 1500
   \<and> startsAt (calls (exec_sched lost_race alice_entered) ! 0) = Fin 1000
   \<and> endsAt (calls (exec_sched lost_race alice_entered) ! 0) = Fin 2000
   \<and> pc (calls (exec_sched lost_race alice_entered) ! 0) = Loop
   \<and> tries (calls (exec_sched lost_race alice_entered) ! 0) = 1
   \<and> window_closed_now (env (exec_sched lost_race alice_entered))
   \<and> pc (calls (fire (Run 0) (exec_sched lost_race alice_entered)) ! 0) = Mget"
  using window_check_cached[of 0 alice_entered lost_race] lost_race_state alice_entered_state
  by (simp add: MAX_RETRIES_def js_gt_def window_closed_now_def window_closed_def cfg0_def)

section \<open>Receipts, for calls that share no connection\<close>

lemma own_conn_step:
  assumes "own_conn w p"
  shows "own_conn (snd (call_step (p, w))) (fst (call_step (p, w)))
       \<and> conn (fst (call_step (p, w))) = conn p
       \<and> (receipts (store w) b = Some oid \<and> oid \<noteq> []
            \<longrightarrow> receipts (store (snd (call_step (p, w)))) b = Some oid)"
  using assms
  by (cases "pc p")
     (auto simp: own_conn_def decr_safe_def call_step_def step_defs Let_def touch_def
        Number_or_zero_def js_le_def
        split: prod.splits option.splits redis_str.splits if_splits)

lemma own_conn_other:
  assumes "own_conn w q" "own_conn w p" "conn q \<noteq> conn p"
  shows "own_conn (snd (call_step (p, w))) q"
  using assms
  by (cases "pc p")
     (auto simp: own_conn_def decr_safe_def call_step_def step_defs Let_def touch_def
        split: prod.splits option.splits redis_str.splits if_splits)

lemma own_conn_clock: "own_conn (w\<lparr>clock := t\<rparr>) p = own_conn w p"
  by (simp add: own_conn_def)

lemma perm_inv_fire:
  assumes inv: "perm_inv s"
  shows "perm_inv (fire e s)
       \<and> (receipts (store (env s)) b = Some oid \<and> oid \<noteq> []
            \<longrightarrow> receipts (store (env (fire e s))) b = Some oid)"
proof (cases e)
  case (Tick d)
  with inv show ?thesis by (simp add: perm_inv_def own_conn_clock)
next
  case (Run i)
  show ?thesis
  proof (cases "i < length (calls s)")
    case False
    with inv Run show ?thesis by simp
  next
    case i: True
    let ?p = "calls s ! i"
    let ?w = "env s"
    obtain p' w' where st: "call_step (?p, ?w) = (p', w')" by (cases "call_step (?p, ?w)")
    from inv have own: "\<forall>p\<in>set (calls s). own_conn ?w p"
      and dist: "distinct (map conn (calls s))"
      by (auto simp: perm_inv_def)
    from own i have ownp: "own_conn ?w ?p" by simp
    from own_conn_step[OF ownp, of b oid] st
    have own': "own_conn w' p'" and cn: "conn p' = conn ?p"
      and keep: "receipts (store ?w) b = Some oid \<and> oid \<noteq> []
                  \<longrightarrow> receipts (store w') b = Some oid"
      by simp_all
    have fire: "fire (Run i) s = \<lparr>env = w', calls = (calls s)[i := p']\<rparr>"
      using i st by simp
    have others: "own_conn w' q" if q: "q \<in> set ((calls s)[i := p'])" for q
    proof -
      from q obtain j where j: "j < length (calls s)" and qj: "q = (calls s)[i := p'] ! j"
        by (auto simp: in_set_conv_nth)
      show ?thesis
      proof (cases "j = i")
        case True
        with qj j own' show ?thesis by simp
      next
        case False
        with qj j have q': "q = calls s ! j" by simp
        from dist i j False have "conn (calls s ! j) \<noteq> conn ?p"
          by (auto simp: distinct_conv_nth)
        moreover from own j have "own_conn ?w (calls s ! j)" by simp
        ultimately have "own_conn (snd (call_step (?p, ?w))) (calls s ! j)"
          using ownp by (intro own_conn_other)
        with st q' show ?thesis by simp
      qed
    qed
    have "(map conn (calls s))[i := conn (calls s ! i)] = map conn (calls s)"
      using i by (simp add: list_update_same_conv)
    then have dist': "distinct (map conn ((calls s)[i := p']))"
      using dist cn by (simp add: map_update)
    show ?thesis
      unfolding Run fire perm_inv_def using others dist' keep by simp
  qed
qed

lemma perm_inv_sched:
  assumes "perm_inv s"
  shows "perm_inv (exec_sched es s)
       \<and> (receipts (store (env s)) b = Some oid \<and> oid \<noteq> []
            \<longrightarrow> receipts (store (env (exec_sched es s))) b = Some oid)"
  using assms unfolding exec_sched_def
proof (induction es arbitrary: s)
  case Nil
  then show ?case by simp
next
  case (Cons e es)
  from perm_inv_fire[OF Cons.prems, of e b oid]
  have 1: "perm_inv (fire e s)"
    and 2: "receipts (store (env s)) b = Some oid \<and> oid \<noteq> []
            \<longrightarrow> receipts (store (env (fire e s))) b = Some oid"
    by simp_all
  from Cons.IH[OF 1] 2 show ?case by simp
qed

lemma exec_sched_append: "exec_sched (es @ es') s = exec_sched es' (exec_sched es s)"
  by (simp add: exec_sched_def)

lemma exec_ops_append: "exec_ops (ys @ zs) w = exec_ops zs (exec_ops ys w)"
  by (simp add: exec_ops_def)

lemma entered_perm_inv:
  assumes "\<forall>p\<in>set (calls s). pc p = Loop \<and> conn p < length (sessions (env s))"
    and "distinct (map conn (calls s))"
  shows "perm_inv s"
  using assms by (simp add: perm_inv_def own_conn_def)

text \<open>
  Receipts under operations run one after another: whatever reserve, lookup and status
  operations (and waiting) \<open>ys\<close> have been run from any state \<open>w\<close>, a receipt \<open>oid\<close> that buyer \<open>b\<close>
  holds then is still the buyer's receipt, unchanged, after every further sequence \<open>zs\<close> of
  such operations; and the order identifier that a purchase answered with is the buyer's
  receipt after every sequence of operations that follows. A committed reservation writes a
  non-empty identifier, which is the \<open>oid \<noteq> []\<close> of the statement. The same holds for reserve
  calls that interleave step by step, each call holding a pooled connection of its own: a
  receipt present after a schedule \<open>es\<close> is still there, unchanged, after every continuation
  \<open>es'\<close>.
\<close>

lemma receipts_kept:
  "(receipts (store (exec_ops ys w)) b = Some oid \<and> oid \<noteq> []
      \<longrightarrow> receipts (store (exec_ops (ys @ zs) w)) b = Some oid)
   \<and> (fst (doPurchase u w) = Some (Purchased (Some oid))
      \<longrightarrow> receipts (store (exec_ops zs (snd (doPurchase u w)))) (trim u) = Some oid)
   \<and> ((\<forall>p\<in>set (calls s). pc p = Loop \<and> conn p < length (sessions (env s)))
        \<and> distinct (map conn (calls s))
        \<and> receipts (store (env (exec_sched es s))) b = Some oid \<and> oid \<noteq> []
      \<longrightarrow> receipts (store (env (exec_sched (es @ es') s))) b = Some oid)"
proof (intro conjI impI)
  assume "receipts (store (exec_ops ys w)) b = Some oid \<and> oid \<noteq> []"
  then show "receipts (store (exec_ops (ys @ zs) w)) b = Some oid"
    by (simp add: keeps_ops exec_ops_append)
next
  assume "fst (doPurchase u w) = Some (Purchased (Some oid))"
  from purchased_receipt[OF this]
  show "receipts (store (exec_ops zs (snd (doPurchase u w)))) (trim u) = Some oid"
    by (simp add: keeps_ops)
next
  assume a: "(\<forall>p\<in>set (calls s). pc p = Loop \<and> conn p < length (sessions (env s)))
        \<and> distinct (map conn (calls s))
        \<and> receipts (store (env (exec_sched es s))) b = Some oid \<and> oid \<noteq> []"
  then have "perm_inv s" by (intro entered_perm_inv) simp_all
  then have "perm_inv (exec_sched es s)" using perm_inv_sched by blast
  from perm_inv_sched[OF this, of es' b oid] a
  show "receipts (store (env (exec_sched (es @ es') s))) b = Some oid"
    by (simp add: exec_sched_append)
qed

lemma first_commits_receipt:
  "receipts (store (env (exec_sched first_commits twice_alice))) ''alice'' = Some ''1500:alice''"
  by (simp add: eval_defs twice_alice_def first_commits_def attempt_def)

lemma receipts_kept_example:
  "receipts (store (exec_ops [Reserve ''alice''] w0)) ''alice'' = Some ''1500:alice''
   \<and> ''1500:alice'' \<noteq> []
   \<and> receipts (store (exec_ops ([Reserve ''alice''] @ later_ops) w0)) ''alice'' = Some ''1500:alice''
   \<and> fst (doPurchase ''alice'' w0) = Some (Purchased (Some ''1500:alice''))
   \<and> receipts (store (exec_ops later_ops (snd (doPurchase ''alice'' w0)))) (trim ''alice'')
       = Some ''1500:alice''
   \<and> list_all (\<lambda>p. pc p = Loop \<and> conn p < length (sessions (env twice_alice))) (calls twice_alice)
   \<and> distinct (map conn (calls twice_alice))
   \<and> receipts (store (env (exec_sched first_commits twice_alice))) ''alice'' = Some ''1500:alice''
   \<and> receipts (store (env (exec_sched (first_commits @ second_retries) twice_alice))) ''alice''
       = Some ''1500:alice''"
proof -
  have r: "receipts (store (exec_ops [Reserve ''alice''] w0)) ''alice'' = Some ''1500:alice''"
    using purchased_receipt[OF doPurchase_alice] by (simp add: exec_ops_def trim_alice)
  have l: "list_all (\<lambda>p. pc p = Loop \<and> conn p < length (sessions (env twice_alice))) (calls twice_alice)"
    and d: "distinct (map conn (calls twice_alice))"
    by (simp_all add: twice_alice_def w0_def)
  from l have l': "\<forall>p\<in>set (calls twice_alice). pc p = Loop \<and> conn p < length (sessions (env twice_alice))"
    by (simp add: list_all_iff)
  from receipts_kept[of "[Reserve ''alice'']" w0 "''alice''" "''1500:alice''" later_ops
      "''alice''" twice_alice first_commits second_retries]
    r doPurchase_alice l' d first_commits_receipt
  have "receipts (store (exec_ops ([Reserve ''alice''] @ later_ops) w0)) ''alice'' = Some ''1500:alice''"
    and "receipts (store (exec_ops later_ops (snd (doPurchase ''alice'' w0)))) (trim ''alice'')
       = Some ''1500:alice''"
    and "receipts (store (env (exec_sched (first_commits @ second_retries) twice_alice))) ''alice''
       = Some ''1500:alice''"
    by blast+
  with r doPurchase_alice l d first_commits_receipt show ?thesis by simp
qed

lemma no_break_space_trimmed:
  "trim [CHR 0xA0, CHR ''a'', CHR ''b'', CHR 0xA0] = ''ab''
   \<and> fst (getPurchase [CHR 0xA0, CHR ''a'', CHR ''b''] w) = LookupInvalidUser
   \<and> fst (doPurchase [CHR 0xA0, CHR ''a'', CHR ''b''] w) = Some InvalidUser"
  by (simp add: trim_def is_space_def getPurchase_def doPurchase_def run_call_simps new_call_def
        doPurchase_entry_def)

section \<open>Two calls in flight on one connection\<close>

text \<open>
  \<^verbatim>\<open>getTxConn()\<close> hands the connections out in turn and never waits for one to be free, so with
  more than eight calls in flight two of them issue their commands on the same connection.
  WATCH state belongs to the connection: the EXEC of the call that commits first ends the
  watch of both, and the EXEC of the other is then carried out whatever has changed since
  its MGET.
\<close>

lemma show_1600: "show_int 1600 = ''1600''"
  by code_simp

text \<open>
  C9 (receipt permanence) does not hold of the code. Of nine requests in flight against
  stock 1, the first and the ninth are the same buyer's and share connection 0. The first
  commits, is answered \<open>purchased\<close> with \<open>1500:alice\<close>, and that is the buyer's receipt. The
  ninth call's EXEC is then carried out: the counter goes to -1, the guard rollback (line
  255) runs and deletes the receipt, and the ninth call is answered \<open>sold_out\<close>. Against
  stock 5, with the ninth request arriving 100 ms later, its EXEC writes \<open>1600:alice\<close> over
  the receipt \<open>1500:alice\<close>, both calls are answered \<open>purchased\<close>, and the counter has gone
  down by 2.
\<close>

theorem receipt_lost_on_shared_connection:
  "map conn (calls (exec_sched all_enter (nine_requests 1))) = [0, 1, 2, 3, 4, 5, 6, 7, 0]
   \<and> answer (pc (calls (exec_sched (all_enter @ in_step) (nine_requests 1)) ! 0))
       = Some (Purchased (Some ''1500:alice''))
   \<and> receipts (store (env (exec_sched (all_enter @ in_step) (nine_requests 1)))) ''alice''
       = Some ''1500:alice''
   \<and> pc (calls (exec_sched (all_enter @ in_step @ [Run 8]) (nine_requests 1)) ! 8) = Rollback
   \<and> answer (pc (calls (exec_sched (all_enter @ in_step @ second_commit) (nine_requests 1)) ! 8))
       = Some SoldOut
   \<and> receipts (store (env (exec_sched (all_enter @ in_step @ second_commit) (nine_requests 1)))) ''alice''
       = None
   \<and> answer (pc (calls (exec_sched (late_ninth @ in_step) (nine_requests 5)) ! 0))
       = Some (Purchased (Some ''1500:alice''))
   \<and> receipts (store (env (exec_sched (late_ninth @ in_step) (nine_requests 5)))) ''alice''
       = Some ''1500:alice''
   \<and> answer (pc (calls (exec_sched (late_ninth @ in_step @ [Run 8]) (nine_requests 5)) ! 8))
       = Some (Purchased (Some ''1600:alice''))
   \<and> receipts (store (env (exec_sched (late_ninth @ in_step @ [Run 8]) (nine_requests 5)))) ''alice''
       = Some ''1600:alice''
   \<and> stock (store (env (exec_sched (late_ninth @ in_step @ [Run 8]) (nine_requests 5))))
       = Some (IntStr 3)"
  by (simp add: eval_defs nine_requests_def all_enter_def late_ninth_def in_step_def
        second_commit_def respond_def show_1600)

text \<open>
  C8 (lookup idempotence) does not hold of the code, by the same sharing of a connection. In
  the first schedule the buyer's reserve is answered \<open>purchased\<close> with \<open>1500:alice\<close> and a
  lookup then answers \<^verbatim>\<open>{purchased: true, orderId: "1500:alice"}\<close>; once the ninth call has
  run its rollback, the lookup answers \<^verbatim>\<open>{purchased: false, orderId: null}\<close>. In the second
  schedule the lookup after the ninth call's commit answers with \<open>1600:alice\<close>, which is not
  the identifier the first reserve returned.
\<close>

theorem lookup_after_lost_receipt:
  "answer (pc (calls (exec_sched (all_enter @ in_step @ second_commit) (nine_requests 1)) ! 0))
       = Some (Purchased (Some ''1500:alice''))
   \<and> fst (getPurchase ''alice'' (env (exec_sched (all_enter @ in_step) (nine_requests 1))))
       = Lookup \<lparr>purchased = True, pv_orderId = Some ''1500:alice''\<rparr>
   \<and> fst (getPurchase ''alice''
        (env (exec_sched (all_enter @ in_step @ second_commit) (nine_requests 1))))
       = Lookup \<lparr>purchased = False, pv_orderId = None\<rparr>
   \<and> answer (pc (calls (exec_sched (late_ninth @ in_step @ [Run 8]) (nine_requests 5)) ! 0))
       = Some (Purchased (Some ''1500:alice''))
   \<and> fst (getPurchase ''alice'' (env (exec_sched (late_ninth @ in_step @ [Run 8]) (nine_requests 5))))
       = Lookup \<lparr>purchased = True, pv_orderId = Some ''1600:alice''\<rparr>"
  by (simp add: eval_defs nine_requests_def all_enter_def late_ninth_def in_step_def
        second_commit_def respond_def show_1600 getPurchase_def)

end
